theory Spec2Isabelle
  imports Complex_Main "HOL-Library.AList"
begin

section \<open>Values of a decoded plan document\<close>

text \<open>
  \<^verbatim>\<open>app.py\<close> works on what \<^verbatim>\<open>json.load\<close> returns: \<^verbatim>\<open>None\<close>, booleans, numbers, strings,
  lists and dicts with string keys. A dict is an association list in insertion order, read
  at the first binding of a key (a Python dict holds one binding per key). A number is a
  Python \<^verbatim>\<open>int\<close>, unbounded, or a Python \<^verbatim>\<open>float\<close>: \<^verbatim>\<open>json.load\<close> reads a literal with a
  fraction or an exponent as a float, and the literals \<^verbatim>\<open>NaN\<close>, \<^verbatim>\<open>Infinity\<close> and
  \<^verbatim>\<open>-Infinity\<close> as the three floats that are not finite. A finite float is given by the
  rational number that is its value, which is all that \<^verbatim>\<open>==\<close> and the truth test read of it
  (\<^verbatim>\<open>0.0\<close> and \<^verbatim>\<open>-0.0\<close> are the same value). \<open>JOther\<close> stands for a Python object of any other
  type that keeps the default equality of \<^verbatim>\<open>object\<close> (identity): the number is the identity
  of the object.
\<close>

datatype py_float = NaN | Infinity | NegInfinity | Finite rat

datatype json =
    JNull
  | JBool bool
  | JInt int
  | JFloat py_float
  | JStr string
  | is_list: JList (list_items: "json list")
  | is_dict: JDict (dict_items: "(string \<times> json) list")
  | JOther nat

text \<open>
  The exceptions that the operations of \<^verbatim>\<open>app.py\<close> can raise: \<^verbatim>\<open>xs[i]\<close> past the end of a
  list and \<^verbatim>\<open>d[key]\<close> for a key that is missing. A computation that may raise returns
  \<open>Inl\<close> the exception or \<open>Inr\<close> its value; \<open>bind_result\<close> runs the rest of the code on
  the value and passes an exception on, and \<open>for_each\<close> is a \<^verbatim>\<open>for\<close> statement whose body
  may raise.
\<close>

datatype py_error = IndexError | KeyError

definition bind_result :: "'e + 'a \<Rightarrow> ('a \<Rightarrow> 'e + 'b) \<Rightarrow> 'e + 'b" where
  "bind_result m f = (case m of Inl e \<Rightarrow> Inl e | Inr x \<Rightarrow> f x)"

fun for_each :: "('a \<Rightarrow> 's \<Rightarrow> 'e + 's) \<Rightarrow> 'a list \<Rightarrow> 's \<Rightarrow> 'e + 's" where
  "for_each body [] s = Inr s"
| "for_each body (x # xs) s = bind_result (body x s) (for_each body xs)"

text \<open>\<^verbatim>\<open>d[key]\<close> and \<^verbatim>\<open>xs[i]\<close> for an index \<open>i\<close> that is not negative.\<close>

definition dict_get :: "(string \<times> 'v) list \<Rightarrow> string \<Rightarrow> py_error + 'v" where
  "dict_get d key = (case map_of d key of None \<Rightarrow> Inl KeyError | Some v \<Rightarrow> Inr v)"

definition list_get :: "'a list \<Rightarrow> nat \<Rightarrow> py_error + 'a" where
  "list_get xs i = (if i < length xs then Inr (xs ! i) else Inl IndexError)"

text \<open>\<^verbatim>\<open>d[key] = v\<close>: the value of an existing key is replaced in place, a new key goes last.\<close>

definition dict_set :: "(string \<times> 'v) list \<Rightarrow> string \<Rightarrow> 'v \<Rightarrow> (string \<times> 'v) list" where
  "dict_set d key v = AList.update key v d"

text \<open>\<^verbatim>\<open>d.update(other)\<close>: the bindings of \<open>other\<close> are stored into \<open>d\<close> one by one, in order.\<close>

definition dict_update :: "(string \<times> 'v) list \<Rightarrow> (string \<times> 'v) list \<Rightarrow> (string \<times> 'v) list" where
  "dict_update d other = fold (\<lambda>(key, v) acc. dict_set acc key v) other d"

lemma bind_result_cong [fundef_cong]:
  "m = m' \<Longrightarrow> (\<And>x. m' = Inr x \<Longrightarrow> f x = g x) \<Longrightarrow> bind_result m f = bind_result m' g"
  by (auto simp: bind_result_def split: sum.splits)

lemma for_each_cong [fundef_cong]:
  "xs = ys \<Longrightarrow> s = t \<Longrightarrow> (\<And>x s. x \<in> set ys \<Longrightarrow> body x s = body' x s) \<Longrightarrow>
   for_each body xs s = for_each body' ys t"
proof (induction ys arbitrary: xs s t)
  case Nil
  then show ?case by simp
next
  case (Cons y ys)
  have "for_each body ys = for_each body' ys"
    using Cons.IH[OF refl refl] Cons.prems(3) by (auto simp: fun_eq_iff)
  with Cons.prems show ?case by simp
qed

lemma size_dict_entry:
  "(k, v) \<in> set d \<Longrightarrow> size (v::json) < Suc (size_list (size_prod (\<lambda>_. 0) size) d)"
  by (induction d) auto

lemma size_dict_get:
  "dict_get d key = Inr v \<Longrightarrow> size (v::json) < Suc (size_list (size_prod (\<lambda>_. 0) size) d)"
  by (auto simp: dict_get_def split: option.splits dest!: map_of_SomeD intro: size_dict_entry)

lemma size_list_elem: "x \<in> set xs \<Longrightarrow> size (x::json) < Suc (size_list size xs)"
  by (induction xs) auto

text \<open>
  \<^verbatim>\<open>==\<close> on two floats: \<^verbatim>\<open>NaN\<close> is equal to no float, itself included; every other float
  is equal to the floats of the same value.
\<close>

fun float_eq :: "py_float \<Rightarrow> py_float \<Rightarrow> bool" where
  "float_eq NaN y = False"
| "float_eq x NaN = False"
| "float_eq x y = (x = y)"

text \<open>
  Python's \<^verbatim>\<open>==\<close> on these values: numbers are compared by value, an \<^verbatim>\<open>int\<close> with a
  \<^verbatim>\<open>float\<close> too, and a boolean is the number 1 or 0 (\<^verbatim>\<open>True == 1\<close>, \<^verbatim>\<open>False == 0.0\<close>);
  lists are equal when they are equal item by item, dicts when they have the same keys with
  equal values, whatever the order of the keys, and values of different kinds are unequal.
  \<^verbatim>\<open>before != after\<close> is the negation of \<^verbatim>\<open>before == after\<close> for all of them. (Python compares
  the items of two lists, and the values of two dicts, with \<^verbatim>\<open>is\<close> before \<^verbatim>\<open>==\<close>;
  \<^verbatim>\<open>find_differences\<close> applies \<^verbatim>\<open>!=\<close> to no pair of lists and to no pair of dicts, which its
  first two branches take.)
\<close>

function (sequential) py_eq :: "json \<Rightarrow> json \<Rightarrow> bool" where
  "py_eq JNull JNull = True"
| "py_eq (JBool x) (JBool y) = (x = y)"
| "py_eq (JBool x) (JInt y) = ((if x then 1 else 0) = y)"
| "py_eq (JInt x) (JBool y) = (x = (if y then 1 else 0))"
| "py_eq (JInt x) (JInt y) = (x = y)"
| "py_eq (JBool x) (JFloat y) = float_eq (Finite (if x then 1 else 0)) y"
| "py_eq (JFloat x) (JBool y) = float_eq x (Finite (if y then 1 else 0))"
| "py_eq (JInt x) (JFloat y) = float_eq (Finite (of_int x)) y"
| "py_eq (JFloat x) (JInt y) = float_eq x (Finite (of_int y))"
| "py_eq (JFloat x) (JFloat y) = float_eq x y"
| "py_eq (JStr x) (JStr y) = (x = y)"
| "py_eq (JList xs) (JList ys) =
     (length xs = length ys \<and> list_all (\<lambda>(x, y). py_eq x y) (zip xs ys))"
| "py_eq (JDict xs) (JDict ys) =
     (set (map fst xs) = set (map fst ys) \<and>
      list_all (\<lambda>k. case map_of xs k of None \<Rightarrow> False
                     | Some x \<Rightarrow> (case map_of ys k of None \<Rightarrow> False | Some y \<Rightarrow> py_eq x y))
        (map fst xs))"
| "py_eq (JOther m) (JOther n) = (m = n)"
| "py_eq _ _ = False"
  by pat_completeness auto
termination
proof (relation "measure (\<lambda>(x, y). size x)", goal_cases)
  case 1
  show ?case by simp
next
  case (2 xs ys z x y)
  then have "x \<in> set xs" by (auto dest: set_zip_leftD)
  then show ?case using size_list_elem by simp
next
  case (3 xs ys k x y)
  then have "(k, x) \<in> set xs" by (auto dest: map_of_SomeD)
  then show ?case using size_dict_entry by simp
qed

text \<open>The truth value Python gives a value in \<^verbatim>\<open>x if x else y\<close>.\<close>

fun py_truthy :: "json \<Rightarrow> bool" where
  "py_truthy JNull = False"
| "py_truthy (JBool b) = b"
| "py_truthy (JInt i) = (i \<noteq> 0)"
| "py_truthy (JFloat f) = (f \<noteq> Finite 0)"
| "py_truthy (JStr s) = (s \<noteq> [])"
| "py_truthy (JList xs) = (xs \<noteq> [])"
| "py_truthy (JDict kvs) = (kvs \<noteq> [])"
| "py_truthy (JOther n) = True"

section \<open>Paths\<close>

text \<open>\<^verbatim>\<open>s.strip(".")\<close> removes every leading and every trailing dot.\<close>

definition py_strip_dots :: "string \<Rightarrow> string" where
  "py_strip_dots s =
     rev (dropWhile (\<lambda>c. c = CHR ''.'') (rev (dropWhile (\<lambda>c. c = CHR ''.'') s)))"

text \<open>\<^verbatim>\<open>str(i)\<close> of a list index: its decimal digits.\<close>

definition digit_char :: "nat \<Rightarrow> char" where
  "digit_char d = char_of (48 + d)"

fun py_str :: "nat \<Rightarrow> string" where
  "py_str n = (if n < 10 then [digit_char n] else py_str (n div 10) @ [digit_char (n mod 10)])"

declare py_str.simps [simp del]

text \<open>\<^verbatim>\<open>f"{path}.{key}".strip(".")\<close> and \<^verbatim>\<open>f"{path}[{i}]"\<close>.\<close>

definition key_path :: "string \<Rightarrow> string \<Rightarrow> string" where
  "key_path path key = py_strip_dots (path @ ''.'' @ key)"

definition index_path :: "string \<Rightarrow> nat \<Rightarrow> string" where
  "index_path path i = path @ ''['' @ py_str i @ '']''"

section \<open>The diff engine: \<^verbatim>\<open>find_differences\<close> and \<^verbatim>\<open>get_the_differences\<close>\<close>

text \<open>
  The result dict \<^verbatim>\<open>{"added": {}, "removed": {}, "changed": {}}\<close>. An entry of \<open>changed\<close> is
  the dict \<^verbatim>\<open>{"before": before, "after": after}\<close>, kept as the pair of the two values.
\<close>

record differences =
  added :: "(string \<times> json) list"
  removed :: "(string \<times> json) list"
  changed :: "(string \<times> (json \<times> json)) list"

definition no_differences :: differences where
  "no_differences = \<lparr>added = [], removed = [], changed = []\<rparr>"

text \<open>
  The three \<^verbatim>\<open>update\<close> calls that follow each recursive call: the entries of \<open>sub_diff\<close> are
  stored into the mappings built so far.
\<close>

definition merge_sub_diff :: "differences \<Rightarrow> differences \<Rightarrow> differences" where
  "merge_sub_diff sub_diff d =
     \<lparr>added = dict_update (added d) (added sub_diff),
      removed = dict_update (removed d) (removed sub_diff),
      changed = dict_update (changed d) (changed sub_diff)\<rparr>"

text \<open>
  The three \<^verbatim>\<open>for\<close> statements over keys run over Python sets (\<^verbatim>\<open>after_keys - before_keys\<close>,
  \<^verbatim>\<open>before_keys - after_keys\<close>, \<^verbatim>\<open>before_keys & after_keys\<close>), and Python does not say in
  which order a set is iterated. The order is therefore a parameter of the model: a
  \<open>set_order\<close> is told the keys of both dicts and the elements of the set, and proposes
  the order in which the statement visits them. \<open>iterate\<close> follows the proposal when it
  lists every element exactly once, and the order of the dict otherwise, so that every statement
  visits every element of its set once and every order of visit is some \<open>set_order\<close>.
\<close>

type_synonym set_order = "string list \<Rightarrow> string list \<Rightarrow> string list \<Rightarrow> string list"

definition iterate :: "set_order \<Rightarrow> string list \<Rightarrow> string list \<Rightarrow> string list \<Rightarrow> string list" where
  "iterate so before_keys after_keys elems =
     (let ks = remdups elems; cand = so before_keys after_keys ks
      in if distinct cand \<and> set cand = set ks then cand else ks)"

text \<open>Two orders to run the model with: the order of the dict, and its reverse.\<close>

definition dict_order :: set_order where
  "dict_order before_keys after_keys ks = ks"

definition reversed_order :: set_order where
  "reversed_order before_keys after_keys ks = rev ks"

function find_differences :: "set_order \<Rightarrow> json \<Rightarrow> json \<Rightarrow> string \<Rightarrow> py_error + differences" where
  "find_differences so before after path =
     (if is_dict before \<and> is_dict after then
        (let before_keys = map fst (dict_items before);
             after_keys = map fst (dict_items after)
         in bind_result
              (for_each
                 (\<lambda>key d. bind_result (dict_get (dict_items after) key)
                    (\<lambda>v. Inr (d\<lparr>added := dict_set (added d) (key_path path key) v\<rparr>)))
                 (iterate so before_keys after_keys [k \<leftarrow> after_keys. k \<notin> set before_keys])
                 no_differences)
              (\<lambda>d. bind_result
                 (for_each
                    (\<lambda>key d. bind_result (dict_get (dict_items before) key)
                       (\<lambda>v. Inr (d\<lparr>removed := dict_set (removed d) (key_path path key) v\<rparr>)))
                    (iterate so before_keys after_keys [k \<leftarrow> before_keys. k \<notin> set after_keys])
                    d)
                 (for_each
                    (\<lambda>key d. bind_result (dict_get (dict_items before) key)
                       (\<lambda>b_item. bind_result (dict_get (dict_items after) key)
                          (\<lambda>a_item. bind_result
                             (find_differences so b_item a_item (key_path path key))
                             (\<lambda>sub_diff. Inr (merge_sub_diff sub_diff d)))))
                    (iterate so before_keys after_keys [k \<leftarrow> before_keys. k \<in> set after_keys]))))
      else if is_list before \<and> is_list after then
        bind_result
          (for_each
             (\<lambda>(i, (b_item, a_item)) d. bind_result
                (find_differences so b_item a_item (index_path path i))
                (\<lambda>sub_diff. Inr (merge_sub_diff sub_diff d)))
             (enumerate 0 (zip (list_items before) (list_items after)))
             no_differences)
          (\<lambda>d. if length (list_items after) > length (list_items before) then
                 for_each
                   (\<lambda>i d. bind_result (list_get (list_items after) i)
                      (\<lambda>v. Inr (d\<lparr>added := dict_set (added d) (py_strip_dots (index_path path i)) v\<rparr>)))
                   [length (list_items before)..<length (list_items after)] d
               else if length (list_items before) > length (list_items after) then
                 for_each
                   (\<lambda>i d. bind_result (list_get (list_items before) i)
                      (\<lambda>v. Inr (d\<lparr>removed := dict_set (removed d) (py_strip_dots (index_path path i)) v\<rparr>)))
                   [length (list_items after)..<length (list_items before)] d
               else Inr d)
      else
        Inr (if \<not> py_eq before after then no_differences\<lparr>changed := dict_set [] path (before, after)\<rparr>
             else no_differences))"
  by pat_completeness auto
termination
proof (relation "measure (\<lambda>(so, before, after, path). size before)", goal_cases)
  case 1
  show ?case by simp
next
  case (2 so before after path x xa xb xc xba s xd xe)
  from 2 obtain b where "before = JDict b" by (cases before) auto
  with 2 show ?case
    using size_dict_get[of b xba xd] by simp
next
  case (3 so before after path x s xa y xb ya xc)
  then have "(xa, xb, ya) \<in> set (enumerate 0 (zip (list_items before) (list_items after)))"
    by simp
  then have "(xb, ya) \<in> set (zip (list_items before) (list_items after))"
    unfolding enumerate_eq_zip by (rule set_zip_rightD)
  then have "xb \<in> set (list_items before)"
    by (rule set_zip_leftD)
  moreover from 3 obtain b where "before = JList b" by (cases before) auto
  ultimately show ?case
    using size_list_elem by simp
qed

declare find_differences.simps [simp del]

text \<open>
  \<^verbatim>\<open>get_the_differences\<close> returns the dict when one of its three mappings is non-empty, and
  falls off its end otherwise: the caller receives \<^verbatim>\<open>None\<close>.
\<close>

definition get_the_differences :: "set_order \<Rightarrow> json \<Rightarrow> json \<Rightarrow> py_error + differences option" where
  "get_the_differences so before after =
     bind_result (find_differences so before after [])
       (\<lambda>differences.
          if added differences \<noteq> [] \<or> removed differences \<noteq> [] \<or> changed differences \<noteq> []
          then Inr (Some differences) else Inr None)"

section \<open>The classifier: \<^verbatim>\<open>change_details\<close> and \<^verbatim>\<open>analyse_plan\<close>\<close>

text \<open>
  One entry of \<^verbatim>\<open>resource_changes\<close> or \<^verbatim>\<open>resource_drift\<close>. Every field is read with
  \<^verbatim>\<open>.get\<close>, so each may be missing (\<open>None\<close>); \<open>ec_actions\<close>, \<open>ec_before\<close>, \<open>ec_after\<close> and
  \<open>ec_dependencies\<close> are the keys of the inner \<^verbatim>\<open>"change"\<close> dict, all missing when that dict
  is missing itself. A field that holds JSON \<^verbatim>\<open>null\<close> is \<open>Some JNull\<close>, not \<open>None\<close>.
\<close>

record entity_change =
  ec_name :: "json option"
  ec_type :: "json option"
  ec_actions :: "string list option"
  ec_before :: "json option"
  ec_after :: "json option"
  ec_dependencies :: "json option"

text \<open>
  The value of the \<^verbatim>\<open>"differences"\<close> key of a restructured resource: \<^verbatim>\<open>None\<close>, the literal
  \<^verbatim>\<open>{}\<close> of the second branch of \<^verbatim>\<open>change_details\<close>, or a result of \<^verbatim>\<open>find_differences\<close>.
\<close>

datatype differences_field = PyNone | EmptyDict | DifferenceSet differences

record resource =
  res_name :: json
  res_type :: json
  res_actions :: "string list"
  res_before :: json
  res_after :: json
  res_dependencies :: json
  res_differences :: differences_field

text \<open>\<^verbatim>\<open>d.get(key)\<close> and \<^verbatim>\<open>d.get(key, default)\<close> on a field that may be missing.\<close>

definition py_get :: "json option \<Rightarrow> json" where
  "py_get field = (case field of None \<Rightarrow> JNull | Some v \<Rightarrow> v)"

definition py_get_default :: "'a option \<Rightarrow> 'a \<Rightarrow> 'a" where
  "py_get_default field dflt = (case field of None \<Rightarrow> dflt | Some v \<Rightarrow> v)"

definition control_actions :: "string list" where
  "control_actions = [''create'', ''delete'', ''update'', ''replace'']"

text \<open>
  \<^verbatim>\<open>action[0]\<close> raises \<^verbatim>\<open>IndexError\<close> on an empty list. The dict of the first branch is
  built after \<^verbatim>\<open>get_the_differences\<close> has returned.
\<close>

definition change_details :: "set_order \<Rightarrow> entity_change \<Rightarrow> string list \<Rightarrow> py_error + resource" where
  "change_details so change action =
     (let resource_name = py_get (ec_name change);
          resource_type = py_get (ec_type change);
          resource_actions = py_get_default (ec_actions change) []
      in case action of
           [] \<Rightarrow> Inl IndexError
         | action0 # _ \<Rightarrow>
             if action0 \<in> set control_actions then
               (let resource_before = py_get_default (ec_before change) (JDict []);
                    resource_after = py_get_default (ec_after change) (JDict [])
                in bind_result (get_the_differences so resource_before resource_after)
                     (\<lambda>differences.
                        Inr \<lparr>res_name = resource_name,
                             res_type = resource_type,
                             res_actions = resource_actions,
                             res_before =
                               (if py_truthy resource_before then resource_before else JDict []),
                             res_after =
                               (if py_truthy resource_after then resource_after else JDict []),
                             res_dependencies = py_get_default (ec_dependencies change) (JDict []),
                             res_differences =
                               (case differences of
                                  None \<Rightarrow> PyNone
                                | Some d \<Rightarrow> DifferenceSet d)\<rparr>))
             else
               Inr \<lparr>res_name = resource_name,
                    res_type = resource_type,
                    res_actions = resource_actions,
                    res_before = JDict [],
                    res_after = JDict [],
                    res_dependencies = py_get_default (ec_dependencies change) (JDict []),
                    res_differences = EmptyDict\<rparr>)"

record summary =
  sum_create :: int
  sum_update :: int
  sum_delete :: int
  sum_replace :: int
  sum_no_op :: int

record changes_dict =
  cd_create_and_delete :: "resource list"
  cd_create :: "resource list"
  cd_update :: "resource list"
  cd_delete :: "resource list"
  cd_replace :: "resource list"
  cd_no_op :: "resource list"

definition initial_summary :: summary where
  "initial_summary =
     \<lparr>sum_create = 0, sum_update = 0, sum_delete = 0, sum_replace = 0, sum_no_op = 0\<rparr>"

definition initial_changes_dict :: changes_dict where
  "initial_changes_dict =
     \<lparr>cd_create_and_delete = [], cd_create = [], cd_update = [], cd_delete = [],
      cd_replace = [], cd_no_op = []\<rparr>"

text \<open>
  The five \<^verbatim>\<open>if\<close> statements of the loop body, each on the pair of \<^verbatim>\<open>changes_dict\<close> and
  \<^verbatim>\<open>summary\<close> that the statements before it left. The counter is incremented before
  \<^verbatim>\<open>change_details\<close> is called.
\<close>

definition if_create ::
  "set_order \<Rightarrow> entity_change \<Rightarrow> string list \<Rightarrow> changes_dict \<times> summary \<Rightarrow>
   py_error + changes_dict \<times> summary" where
  "if_create so change action st =
     (case st of (cd, sm) \<Rightarrow>
        if ''create'' \<in> set action then
          (let sm1 = sm\<lparr>sum_create := sum_create sm + 1\<rparr>
           in if ''delete'' \<in> set action then
                bind_result (change_details so change action)
                  (\<lambda>r. Inr (cd\<lparr>cd_create_and_delete := cd_create_and_delete cd @ [r]\<rparr>, sm1))
              else
                bind_result (change_details so change action)
                  (\<lambda>r. Inr (cd\<lparr>cd_create := cd_create cd @ [r]\<rparr>, sm1)))
        else Inr (cd, sm))"

definition if_update ::
  "set_order \<Rightarrow> entity_change \<Rightarrow> string list \<Rightarrow> changes_dict \<times> summary \<Rightarrow>
   py_error + changes_dict \<times> summary" where
  "if_update so change action st =
     (case st of (cd, sm) \<Rightarrow>
        if ''update'' \<in> set action then
          (let sm1 = sm\<lparr>sum_update := sum_update sm + 1\<rparr>
           in bind_result (change_details so change action)
                (\<lambda>r. Inr (cd\<lparr>cd_update := cd_update cd @ [r]\<rparr>, sm1)))
        else Inr (cd, sm))"

definition if_delete ::
  "set_order \<Rightarrow> entity_change \<Rightarrow> string list \<Rightarrow> changes_dict \<times> summary \<Rightarrow>
   py_error + changes_dict \<times> summary" where
  "if_delete so change action st =
     (case st of (cd, sm) \<Rightarrow>
        if ''delete'' \<in> set action then
          (let sm1 = sm\<lparr>sum_delete := sum_delete sm + 1\<rparr>
           in if ''create'' \<notin> set action then
                bind_result (change_details so change action)
                  (\<lambda>r. Inr (cd\<lparr>cd_delete := cd_delete cd @ [r]\<rparr>, sm1))
              else Inr (cd, sm1))
        else Inr (cd, sm))"

definition if_replace ::
  "set_order \<Rightarrow> entity_change \<Rightarrow> string list \<Rightarrow> changes_dict \<times> summary \<Rightarrow>
   py_error + changes_dict \<times> summary" where
  "if_replace so change action st =
     (case st of (cd, sm) \<Rightarrow>
        if ''replace'' \<in> set action then
          (let sm1 = sm\<lparr>sum_replace := sum_replace sm + 1\<rparr>
           in bind_result (change_details so change action)
                (\<lambda>r. Inr (cd\<lparr>cd_replace := cd_replace cd @ [r]\<rparr>, sm1)))
        else Inr (cd, sm))"

definition if_no_op ::
  "set_order \<Rightarrow> entity_change \<Rightarrow> string list \<Rightarrow> changes_dict \<times> summary \<Rightarrow>
   py_error + changes_dict \<times> summary" where
  "if_no_op so change action st =
     (case st of (cd, sm) \<Rightarrow>
        if ''no-op'' \<in> set action then
          (let sm1 = sm\<lparr>sum_no_op := sum_no_op sm + 1\<rparr>
           in bind_result (change_details so change action)
                (\<lambda>r. Inr (cd\<lparr>cd_no_op := cd_no_op cd @ [r]\<rparr>, sm1)))
        else Inr (cd, sm))"

text \<open>The body of \<^verbatim>\<open>for change in changes\<close>: the five statements in a row.\<close>

definition classify_change ::
  "set_order \<Rightarrow> entity_change \<Rightarrow> changes_dict \<times> summary \<Rightarrow> py_error + changes_dict \<times> summary" where
  "classify_change so change st =
     (let action = py_get_default (ec_actions change) []
      in bind_result (if_create so change action st) (\<lambda>st.
         bind_result (if_update so change action st) (\<lambda>st.
         bind_result (if_delete so change action st) (\<lambda>st.
         bind_result (if_replace so change action st) (\<lambda>st.
         if_no_op so change action st)))))"

text \<open>
  \<^verbatim>\<open>analyse_plan\<close>: the plan is the dict of its sections, \<^verbatim>\<open>plan.get(type_of_change, [])\<close>
  the list of entries of one section. The result is \<open>Inr None\<close> for \<^verbatim>\<open>return None\<close>, and
  \<open>Inl\<close> an exception.
\<close>

definition analyse_plan ::
  "set_order \<Rightarrow> (string \<times> entity_change list) list \<Rightarrow> string \<Rightarrow>
   py_error + (changes_dict \<times> summary) option" where
  "analyse_plan so plan type_of_change =
     (let changes = py_get_default (map_of plan type_of_change) []
      in if changes = [] then Inr None
         else bind_result
                (for_each (classify_change so) changes (initial_changes_dict, initial_summary))
                (\<lambda>st. Inr (Some st)))"

section \<open>The value that \<^verbatim>\<open>find_differences\<close> returns\<close>

text \<open>
  \<^verbatim>\<open>find_differences\<close> never raises: its lookups are made for keys that the dict holds and
  for indices below the length of the list. Its value is the one of the following function,
  in which a lookup is a plain read and a \<^verbatim>\<open>for\<close> statement a fold (lemma
  \<open>find_differences_returns\<close>). The properties of \<^verbatim>\<open>find_differences\<close> are proved on it.
\<close>

definition lookup :: "(string \<times> 'v) list \<Rightarrow> string \<Rightarrow> 'v" where
  "lookup d key = the (map_of d key)"

lemma lookup_in: "key \<in> set (map fst d) \<Longrightarrow> (key, lookup d key) \<in> set d"
  unfolding lookup_def by (induction d) auto

lemma size_lookup:
  "key \<in> set (map fst d) \<Longrightarrow>
   size (lookup d key :: json) < Suc (size_list (size_prod (\<lambda>_. 0) size) d)"
  by (rule size_dict_entry[OF lookup_in])

lemma set_iterate [simp]: "set (iterate so bks aks elems) = set elems"
  by (auto simp: iterate_def Let_def)

lemma distinct_iterate [simp]: "distinct (iterate so bks aks elems)"
  by (auto simp: iterate_def Let_def)

function diff_of :: "set_order \<Rightarrow> json \<Rightarrow> json \<Rightarrow> string \<Rightarrow> differences" where
  "diff_of so before after path =
     (if is_dict before \<and> is_dict after then
        (let before_keys = map fst (dict_items before);
             after_keys = map fst (dict_items after);
             d1 = fold (\<lambda>key d. d\<lparr>added := dict_set (added d) (key_path path key)
                                           (lookup (dict_items after) key)\<rparr>)
                    (iterate so before_keys after_keys [k \<leftarrow> after_keys. k \<notin> set before_keys])
                    no_differences;
             d2 = fold (\<lambda>key d. d\<lparr>removed := dict_set (removed d) (key_path path key)
                                             (lookup (dict_items before) key)\<rparr>)
                    (iterate so before_keys after_keys [k \<leftarrow> before_keys. k \<notin> set after_keys])
                    d1
         in fold (\<lambda>key d. merge_sub_diff
                      (diff_of so (lookup (dict_items before) key)
                         (lookup (dict_items after) key) (key_path path key)) d)
              (iterate so before_keys after_keys [k \<leftarrow> before_keys. k \<in> set after_keys])
              d2)
      else if is_list before \<and> is_list after then
        (let d1 = fold (\<lambda>(i, (b_item, a_item)) d. merge_sub_diff
                           (diff_of so b_item a_item (index_path path i)) d)
                    (enumerate 0 (zip (list_items before) (list_items after)))
                    no_differences
         in if length (list_items after) > length (list_items before) then
              fold (\<lambda>i d. d\<lparr>added := dict_set (added d) (py_strip_dots (index_path path i))
                                        (list_items after ! i)\<rparr>)
                [length (list_items before)..<length (list_items after)] d1
            else if length (list_items before) > length (list_items after) then
              fold (\<lambda>i d. d\<lparr>removed := dict_set (removed d) (py_strip_dots (index_path path i))
                                          (list_items before ! i)\<rparr>)
                [length (list_items after)..<length (list_items before)] d1
            else d1)
      else
        (if \<not> py_eq before after then no_differences\<lparr>changed := dict_set [] path (before, after)\<rparr>
         else no_differences))"
  by pat_completeness auto
termination
proof (relation "measure (\<lambda>(so, before, after, path). size before)", goal_cases)
  case 1
  show ?case by simp
next
  case (2 so before after path x xa xb xc xd)
  then have "xd \<in> set (map fst (dict_items before))" by simp
  moreover from 2 obtain b where "before = JDict b" by (cases before) auto
  ultimately show ?case
    using size_lookup by simp
next
  case (3 so before after path x xa y xb ya)
  then have "(xa, xb, ya) \<in> set (enumerate 0 (zip (list_items before) (list_items after)))"
    by simp
  then have "(xb, ya) \<in> set (zip (list_items before) (list_items after))"
    unfolding enumerate_eq_zip by (rule set_zip_rightD)
  then have "xb \<in> set (list_items before)"
    by (rule set_zip_leftD)
  moreover from 3 obtain b where "before = JList b" by (cases before) auto
  ultimately show ?case
    using size_list_elem by simp
qed

declare diff_of.simps [simp del]

section \<open>Predicates used in the statements\<close>

text \<open>
  A key is plain when it is not empty and holds neither a dot nor an opening bracket, the
  two characters that start a step of a path. A value has plain keys when every key of every
  dict in it is plain.
\<close>

definition plain_key :: "string \<Rightarrow> bool" where
  "plain_key k = (k \<noteq> [] \<and> CHR ''.'' \<notin> set k \<and> CHR ''['' \<notin> set k)"

fun plain_keys :: "json \<Rightarrow> bool" where
  "plain_keys (JList xs) = list_all plain_keys xs"
| "plain_keys (JDict kvs) = list_all (\<lambda>(k, v). plain_key k \<and> plain_keys v) kvs"
| "plain_keys v = True"

text \<open>
  The paths that \<^verbatim>\<open>find_differences\<close> builds from the empty root path through plain keys
  and list indices neither start nor end with a dot, so that \<^verbatim>\<open>strip(".")\<close> leaves them as
  they are. A path \<open>q\<close> is below a path \<open>p\<close> when it is \<open>p\<close>, or \<open>p\<close> followed by
  further steps; every path is below the root.
\<close>

definition good_path :: "string \<Rightarrow> bool" where
  "good_path p = (p = [] \<or> (hd p \<noteq> CHR ''.'' \<and> last p \<noteq> CHR ''.''))"

definition below :: "string \<Rightarrow> string \<Rightarrow> bool" where
  "below p q = (p = [] \<or> (\<exists>s. q = p @ s \<and> (s = [] \<or> hd s = CHR ''.'' \<or> hd s = CHR ''['')))"

text \<open>
  The paths of a result are the keys of its three mappings. The mappings are apart when no
  path is a key of two of them.
\<close>

definition diff_keys :: "differences \<Rightarrow> string set" where
  "diff_keys d = fst ` set (added d) \<union> fst ` set (removed d) \<union> fst ` set (changed d)"

definition paths_apart :: "differences \<Rightarrow> bool" where
  "paths_apart d =
     (fst ` set (added d) \<inter> fst ` set (removed d) = {} \<and>
      fst ` set (added d) \<inter> fst ` set (changed d) = {} \<and>
      fst ` set (removed d) \<inter> fst ` set (changed d) = {})"

text \<open>
  Two results mirror each other when the entries of \<open>added\<close> of one are the entries of
  \<open>removed\<close> of the other, and their \<open>changed\<close> entries are the same up to the exchange
  of the two values.
\<close>

definition mirrored :: "differences \<Rightarrow> differences \<Rightarrow> bool" where
  "mirrored d d' =
     (set (added d) = set (removed d') \<and>
      set (removed d) = set (added d') \<and>
      set (changed d) = apsnd prod.swap ` set (changed d'))"

text \<open>
  A value is free of \<^verbatim>\<open>NaN\<close> when no float in it, at any depth, is \<^verbatim>\<open>NaN\<close>.
\<close>

fun nan_free :: "json \<Rightarrow> bool" where
  "nan_free (JFloat f) = (f \<noteq> NaN)"
| "nan_free (JList xs) = list_all nan_free xs"
| "nan_free (JDict kvs) = list_all (\<lambda>(k, v). nan_free v) kvs"
| "nan_free v = True"

text \<open>
  The counters and the lengths of the lists, as a property of the pair that the
  \<^verbatim>\<open>for\<close> statement of \<^verbatim>\<open>analyse_plan\<close> carries.
\<close>

definition counters_match :: "changes_dict \<times> summary \<Rightarrow> bool" where
  "counters_match st =
     (case st of (cd, sm) \<Rightarrow>
        sum_update sm = int (length (cd_update cd)) \<and>
        sum_replace sm = int (length (cd_replace cd)) \<and>
        sum_no_op sm = int (length (cd_no_op cd)) \<and>
        sum_create sm = int (length (cd_create cd)) + int (length (cd_create_and_delete cd)) \<and>
        sum_delete sm = int (length (cd_delete cd)) + int (length (cd_create_and_delete cd)))"

section \<open>Inputs to run the model on\<close>

definition example_change :: "string list \<Rightarrow> entity_change" where
  "example_change acts =
     \<lparr>ec_name = Some (JStr ''web''),
      ec_type = Some (JStr ''aws_instance''),
      ec_actions = Some acts,
      ec_before = Some (JDict [(''size'', JInt 1)]),
      ec_after = Some (JDict [(''size'', JInt 2)]),
      ec_dependencies = None\<rparr>"

definition example_plan :: "(string \<times> entity_change list) list" where
  "example_plan =
     [(''resource_changes'',
       [example_change [''create'', ''delete''],
        example_change [''no-op'', ''update''],
        example_change [''no-op'']])]"

definition plain_before :: json where
  "plain_before =
     JDict [(''size'', JInt 1), (''tags'', JDict [(''env'', JStr ''dev'')]),
            (''ports'', JList [JInt 80, JInt 443])]"

definition plain_after :: json where
  "plain_after =
     JDict [(''tags'', JDict [(''env'', JStr ''prod''), (''team'', JStr ''core'')]),
            (''ports'', JList [JInt 80]), (''zone'', JNull)]"

text \<open>
  Values whose keys hold dots. In the first pair the key \<^verbatim>\<open>a.b\<close> of the root and the key
  \<^verbatim>\<open>b\<close> under \<^verbatim>\<open>a\<close> give the same path. In the second pair two recursive calls write
  the path \<^verbatim>\<open>a.b.c\<close>, and the two dicts list their keys in different orders.
\<close>

definition dotted_before :: json where
  "dotted_before = JDict [(''a'', JDict [(''b'', JInt 1)]), (''a.b'', JInt 2)]"

definition dotted_after :: json where
  "dotted_after = JDict [(''a'', JDict []), (''a.b'', JInt 3)]"

definition crossing_before :: json where
  "crossing_before = JDict [(''a'', JDict []), (''a.b'', JDict [])]"

definition crossing_after :: json where
  "crossing_after = JDict [(''a.b'', JDict [(''c'', JInt 2)]), (''a'', JDict [(''b.c'', JInt 1)])]"

definition new_entity :: entity_change where
  "new_entity =
     \<lparr>ec_name = Some (JStr ''web''),
      ec_type = Some (JStr ''aws_instance''),
      ec_actions = Some [''create''],
      ec_before = None,
      ec_after = Some (JDict [(''tags'', JDict [(''env'', JStr ''prod'')])]),
      ec_dependencies = None\<rparr>"

definition removed_entity :: entity_change where
  "removed_entity =
     \<lparr>ec_name = Some (JStr ''web''),
      ec_type = Some (JStr ''aws_instance''),
      ec_actions = Some [''delete''],
      ec_before = Some (JDict [(''tags'', JDict [(''env'', JStr ''prod'')])]),
      ec_after = None,
      ec_dependencies = None\<rparr>"

text \<open>
  A state with floats that are not \<^verbatim>\<open>NaN\<close>, and a state that holds \<^verbatim>\<open>NaN\<close>, as
  \<^verbatim>\<open>json.load\<close> reads them from \<^verbatim>\<open>{"x": NaN}\<close>.
\<close>

definition float_state :: json where
  "float_state =
     JDict [(''size'', JFloat (Finite (3 / 2))), (''limit'', JFloat Infinity),
            (''ports'', JList [JInt 80, JFloat (Finite 0)])]"

definition nan_state :: json where
  "nan_state = JDict [(''x'', JFloat NaN)]"

section \<open>Unfolding \<open>diff_of\<close>\<close>

subsection \<open>One equation for each case\<close>

lemma diff_of_dict:
  "diff_of so (JDict before) (JDict after) path =
     (let before_keys = map fst before;
          after_keys = map fst after;
          d1 = fold (\<lambda>key d. d\<lparr>added := dict_set (added d) (key_path path key) (lookup after key)\<rparr>)
                 (iterate so before_keys after_keys [k \<leftarrow> after_keys. k \<notin> set before_keys])
                 no_differences;
          d2 = fold (\<lambda>key d. d\<lparr>removed := dict_set (removed d) (key_path path key) (lookup before key)\<rparr>)
                 (iterate so before_keys after_keys [k \<leftarrow> before_keys. k \<notin> set after_keys])
                 d1
      in fold (\<lambda>key d. merge_sub_diff
                   (diff_of so (lookup before key) (lookup after key) (key_path path key)) d)
           (iterate so before_keys after_keys [k \<leftarrow> before_keys. k \<in> set after_keys])
           d2)"
  by (subst diff_of.simps) simp

lemma diff_of_list:
  "diff_of so (JList before) (JList after) path =
     (let d1 = fold (\<lambda>(i, (b_item, a_item)) d. merge_sub_diff
                        (diff_of so b_item a_item (index_path path i)) d)
                 (enumerate 0 (zip before after))
                 no_differences
      in if length after > length before then
           fold (\<lambda>i d. d\<lparr>added := dict_set (added d) (py_strip_dots (index_path path i)) (after ! i)\<rparr>)
             [length before..<length after] d1
         else if length before > length after then
           fold (\<lambda>i d. d\<lparr>removed := dict_set (removed d) (py_strip_dots (index_path path i)) (before ! i)\<rparr>)
             [length after..<length before] d1
         else d1)"
  by (subst diff_of.simps) (simp add: Let_def)

lemma diff_of_other:
  assumes "\<not> (is_dict before \<and> is_dict after)" and "\<not> (is_list before \<and> is_list after)"
  shows "diff_of so before after path =
     (if py_eq before after then no_differences
      else \<lparr>added = [], removed = [], changed = [(path, (before, after))]\<rparr>)"
  by (subst diff_of.simps)
    (simp only: assms if_False, simp add: no_differences_def dict_set_def)

subsection \<open>Folds over the three mappings\<close>

lemma dict_update_Nil [simp]: "dict_update d [] = d"
  by (simp add: dict_update_def)

lemma merge_no_differences [simp]: "merge_sub_diff no_differences d = d"
  by (simp add: merge_sub_diff_def no_differences_def)

lemma fold_id: "(\<And>x. x \<in> set xs \<Longrightarrow> f x = id) \<Longrightarrow> fold f xs a = a"
  by (induction xs arbitrary: a) auto

lemma iterate_Nil [simp]: "iterate so bks aks [] = []"
  by (auto simp: iterate_def Let_def)

lemma keys_dict_set [simp]: "fst ` set (dict_set d k v) = insert k (fst ` set d)"
  by (simp add: dict_set_def dom_update)

lemma keys_dict_update [simp]: "fst ` set (dict_update d other) = fst ` set d \<union> fst ` set other"
  unfolding dict_update_def
  by (induction other arbitrary: d) (auto simp: case_prod_beta)

lemma distinct_dict_set: "distinct (map fst d) \<Longrightarrow> distinct (map fst (dict_set d k v))"
  by (simp add: dict_set_def distinct_update)

lemma distinct_dict_update: "distinct (map fst d) \<Longrightarrow> distinct (map fst (dict_update d other))"
  unfolding dict_update_def
  by (induction other arbitrary: d) (auto simp: case_prod_beta distinct_dict_set)

lemma map_of_dict_set [simp]: "map_of (dict_set d k v) = (map_of d)(k \<mapsto> v)"
  by (simp add: dict_set_def update_conv')

lemma map_of_dict_update:
  "distinct (map fst other) \<Longrightarrow> map_of (dict_update d other) = map_of d ++ map_of other"
  unfolding dict_update_def
proof (induction other arbitrary: d)
  case Nil
  then show ?case by simp
next
  case (Cons kv other)
  obtain k v where kv: "kv = (k, v)" by (cases kv)
  from Cons.prems kv have k: "map_of other k = None" and dist: "distinct (map fst other)"
    by (auto simp: map_of_eq_None_iff)
  have "map_of (fold (\<lambda>(key, v) acc. dict_set acc key v) other (dict_set d k v)) =
      map_of (dict_set d k v) ++ map_of other"
    by (rule Cons.IH[OF dist])
  also have "\<dots> = map_of d ++ map_of (kv # other)"
    using k by (auto simp: fun_eq_iff map_add_def kv split: option.splits)
  finally show ?case by (simp only: kv fold_simps case_prod_conv comp_def)
qed

text \<open>The for statements that store entries directly touch one field only.\<close>

lemma fold_added_set:
  "fold (\<lambda>x d. d\<lparr>added := dict_set (added d) (f x) (g x)\<rparr>) xs d0 =
     d0\<lparr>added := fold (\<lambda>x acc. dict_set acc (f x) (g x)) xs (added d0)\<rparr>"
  by (induction xs arbitrary: d0) auto

lemma fold_removed_set:
  "fold (\<lambda>x d. d\<lparr>removed := dict_set (removed d) (f x) (g x)\<rparr>) xs d0 =
     d0\<lparr>removed := fold (\<lambda>x acc. dict_set acc (f x) (g x)) xs (removed d0)\<rparr>"
  by (induction xs arbitrary: d0) auto

lemma fold_merge_fields:
  "fold (\<lambda>x d. merge_sub_diff (F x) d) xs d0 =
     \<lparr>added = fold (\<lambda>x acc. dict_update acc (added (F x))) xs (added d0),
      removed = fold (\<lambda>x acc. dict_update acc (removed (F x))) xs (removed d0),
      changed = fold (\<lambda>x acc. dict_update acc (changed (F x))) xs (changed d0)\<rparr>"
  by (induction xs arbitrary: d0) (auto simp: merge_sub_diff_def)

lemma keys_fold_dict_set:
  "fst ` set (fold (\<lambda>x acc. dict_set acc (f x) (g x)) xs acc0) = fst ` set acc0 \<union> f ` set xs"
  by (induction xs arbitrary: acc0) auto

lemma keys_fold_dict_update:
  "fst ` set (fold (\<lambda>x acc. dict_update acc (G x)) xs acc0) =
     fst ` set acc0 \<union> (\<Union>x\<in>set xs. fst ` set (G x))"
  by (induction xs arbitrary: acc0) auto

lemma distinct_fold_dict_set:
  "distinct (map fst acc0) \<Longrightarrow> distinct (map fst (fold (\<lambda>x acc. dict_set acc (f x) (g x)) xs acc0))"
  by (induction xs arbitrary: acc0) (auto simp: distinct_dict_set)

lemma distinct_fold_dict_update:
  "distinct (map fst acc0) \<Longrightarrow> distinct (map fst (fold (\<lambda>x acc. dict_update acc (G x)) xs acc0))"
  by (induction xs arbitrary: acc0) (auto simp: distinct_dict_update)

subsection \<open>A value against itself\<close>

lemma float_eq_refl: "f \<noteq> NaN \<Longrightarrow> float_eq f f"
  by (cases f) simp_all

lemma float_eq_sym: "float_eq x y = float_eq y x"
  by (cases x; cases y) auto

lemma py_eq_refl: "nan_free v \<Longrightarrow> py_eq v v"
proof (induction v)
  case (JList xs)
  then show ?case by (induction xs) auto
next
  case (JDict kvs)
  have "list_all (\<lambda>k. case map_of kvs k of None \<Rightarrow> False
                      | Some x \<Rightarrow> (case map_of kvs k of None \<Rightarrow> False | Some y \<Rightarrow> py_eq x y))
          (map fst kvs)"
    unfolding list_all_iff
  proof
    fix k assume "k \<in> set (map fst kvs)"
    then obtain x where x: "map_of kvs k = Some x"
      by (metis domD dom_map_of_conv_image_fst set_map)
    then have in_kvs: "(k, x) \<in> set kvs" by (rule map_of_SomeD)
    with JDict.prems have "nan_free x" by (auto simp: list_all_iff)
    with in_kvs have "py_eq x x" using JDict.IH by (auto simp: image_iff)
    then show "case map_of kvs k of None \<Rightarrow> False
        | Some x \<Rightarrow> (case map_of kvs k of None \<Rightarrow> False | Some y \<Rightarrow> py_eq x y)"
      by (simp add: x)
  qed
  then show ?case by simp
qed (auto simp: float_eq_refl)

lemma diff_of_same: "nan_free v \<Longrightarrow> diff_of so v v path = no_differences"
proof (induction v arbitrary: path)
  case (JList xs)
  have "\<And>x. x \<in> set (enumerate 0 (zip xs xs)) \<Longrightarrow>
          (\<lambda>(i, (b_item, a_item)) d. merge_sub_diff
              (diff_of so b_item a_item (index_path path i)) d) x = id"
  proof -
    fix x assume "x \<in> set (enumerate 0 (zip xs xs))"
    then have "snd x \<in> set (zip xs xs)"
      unfolding enumerate_eq_zip by (metis set_zip_rightD prod.collapse)
    then have "fst (snd x) \<in> set xs \<and> fst (snd x) = snd (snd x)"
      by (metis prod.collapse zip_same)
    then obtain i y where x: "x = (i, (y, y))" and y: "y \<in> set xs"
      by (metis prod.collapse)
    from y JList.prems have "nan_free y" by (simp add: list_all_iff)
    with x y show "(\<lambda>(i, (b_item, a_item)) d. merge_sub_diff
              (diff_of so b_item a_item (index_path path i)) d) x = id"
      using JList.IH by (auto simp: fun_eq_iff)
  qed
  then show ?case
    by (simp add: diff_of_list fold_id)
next
  case (JDict kvs)
  have "\<And>key. key \<in> set (map fst kvs) \<Longrightarrow>
          diff_of so (lookup kvs key) (lookup kvs key) (key_path path key) = no_differences"
  proof -
    fix key assume "key \<in> set (map fst kvs)"
    then have in_kvs: "(key, lookup kvs key) \<in> set kvs" by (rule lookup_in)
    with JDict.prems have "nan_free (lookup kvs key)" by (auto simp: list_all_iff)
    with in_kvs show "diff_of so (lookup kvs key) (lookup kvs key) (key_path path key) = no_differences"
      using JDict.IH by (auto simp: image_iff)
  qed
  then have "fold (\<lambda>key d. merge_sub_diff
              (diff_of so (lookup kvs key) (lookup kvs key) (key_path path key)) d)
            (iterate so (map fst kvs) (map fst kvs) (map fst kvs)) no_differences = no_differences"
    by (intro fold_id) (auto simp: fun_eq_iff)
  then show ?case
    by (simp add: diff_of_dict Let_def)
qed (simp_all add: diff_of_other float_eq_refl)

lemma diff_of_cases_induct [case_names dict list other]:
  fixes P :: "set_order \<Rightarrow> json \<Rightarrow> json \<Rightarrow> string \<Rightarrow> bool"
  assumes dict: "\<And>so before after path.
      (\<And>key. key \<in> set (map fst before) \<Longrightarrow> key \<in> set (map fst after) \<Longrightarrow>
         P so (lookup before key) (lookup after key) (key_path path key)) \<Longrightarrow>
      P so (JDict before) (JDict after) path"
    and list: "\<And>so before after path.
      (\<And>i. i < length before \<Longrightarrow> i < length after \<Longrightarrow>
         P so (before ! i) (after ! i) (index_path path i)) \<Longrightarrow>
      P so (JList before) (JList after) path"
    and other: "\<And>so before after path.
      \<not> (is_dict before \<and> is_dict after) \<Longrightarrow> \<not> (is_list before \<and> is_list after) \<Longrightarrow>
      P so before after path"
  shows "P so before after path"
proof (induction so before after path rule: diff_of.induct)
  case (1 so before after path)
  show ?case
  proof (cases "is_dict before \<and> is_dict after")
    case True
    then obtain b a where ba: "before = JDict b" "after = JDict a"
      by (cases before; cases after) auto
    have "P so (JDict b) (JDict a) path"
    proof (rule dict)
      fix key assume "key \<in> set (map fst b)" "key \<in> set (map fst a)"
      then have "key \<in> set (iterate so (map fst (dict_items before)) (map fst (dict_items after))
          (filter (\<lambda>k. k \<in> set (map fst (dict_items after))) (map fst (dict_items before))))"
        by (simp add: ba)
      from "1.IH"(1)[OF True refl refl refl refl this]
      show "P so (lookup b key) (lookup a key) (key_path path key)"
        by (simp add: ba)
    qed
    then show ?thesis by (simp add: ba)
  next
    case nd: False
    show ?thesis
    proof (cases "is_list before \<and> is_list after")
      case True
      then obtain b a where ba: "before = JList b" "after = JList a"
        by (cases before; cases after) auto
      have "P so (JList b) (JList a) path"
      proof (rule list)
        fix i assume "i < length b" "i < length a"
        then have "(i, (b ! i, a ! i)) \<in> set (enumerate 0 (zip (list_items before) (list_items after)))"
          by (simp add: ba in_set_enumerate_eq)
        from "1.IH"(2)[OF nd True this refl refl]
        show "P so (b ! i) (a ! i) (index_path path i)" .
      qed
      then show ?thesis by (simp add: ba)
    next
      case False
      with nd show ?thesis by (rule other)
    qed
  qed
qed

lemma enumerate_zip_nth:
  "enumerate 0 (zip bs as) = map (\<lambda>i. (i, (bs ! i, as ! i))) [0..<min (length bs) (length as)]"
  by (rule nth_equalityI) (simp_all add: nth_enumerate_eq)

lemma fold_enumerate_zip:
  "fold (\<lambda>(i, (b_item, a_item)) d. G i b_item a_item d) (enumerate 0 (zip bs as)) d0 =
   fold (\<lambda>i d. G i (bs ! i) (as ! i) d) [0..<min (length bs) (length as)] d0"
  by (simp add: enumerate_zip_nth fold_map comp_def)

text \<open>The result of the dict case and of the list case, field by field.\<close>

lemma diff_of_dict_fields:
  "diff_of so (JDict b) (JDict a) p =
     \<lparr>added =
        fold (\<lambda>k acc. dict_update acc
                (added (diff_of so (lookup b k) (lookup a k) (key_path p k))))
          (iterate so (map fst b) (map fst a) [k \<leftarrow> map fst b. k \<in> set (map fst a)])
          (fold (\<lambda>k acc. dict_set acc (key_path p k) (lookup a k))
             (iterate so (map fst b) (map fst a) [k \<leftarrow> map fst a. k \<notin> set (map fst b)]) []),
      removed =
        fold (\<lambda>k acc. dict_update acc
                (removed (diff_of so (lookup b k) (lookup a k) (key_path p k))))
          (iterate so (map fst b) (map fst a) [k \<leftarrow> map fst b. k \<in> set (map fst a)])
          (fold (\<lambda>k acc. dict_set acc (key_path p k) (lookup b k))
             (iterate so (map fst b) (map fst a) [k \<leftarrow> map fst b. k \<notin> set (map fst a)]) []),
      changed =
        fold (\<lambda>k acc. dict_update acc
                (changed (diff_of so (lookup b k) (lookup a k) (key_path p k))))
          (iterate so (map fst b) (map fst a) [k \<leftarrow> map fst b. k \<in> set (map fst a)])
          []\<rparr>"
  by (simp add: diff_of_dict Let_def fold_merge_fields fold_added_set fold_removed_set
      no_differences_def)

lemma diff_of_list_fields:
  "diff_of so (JList b) (JList a) p =
     \<lparr>added =
        fold (\<lambda>i acc. dict_set acc (py_strip_dots (index_path p i)) (a ! i))
          [length b..<length a]
          (fold (\<lambda>i acc. dict_update acc
                   (added (diff_of so (b ! i) (a ! i) (index_path p i))))
             [0..<min (length b) (length a)] []),
      removed =
        fold (\<lambda>i acc. dict_set acc (py_strip_dots (index_path p i)) (b ! i))
          [length a..<length b]
          (fold (\<lambda>i acc. dict_update acc
                   (removed (diff_of so (b ! i) (a ! i) (index_path p i))))
             [0..<min (length b) (length a)] []),
      changed =
        fold (\<lambda>i acc. dict_update acc
                (changed (diff_of so (b ! i) (a ! i) (index_path p i))))
          [0..<min (length b) (length a)] []\<rparr>"
  by (simp add: diff_of_list Let_def fold_enumerate_zip fold_merge_fields
      fold_added_set fold_removed_set no_differences_def)

section \<open>\<^verbatim>\<open>find_differences\<close> returns\<close>

lemma for_each_pure:
  "(\<And>x s. x \<in> set xs \<Longrightarrow> body x s = Inr (f x s)) \<Longrightarrow> for_each body xs s = Inr (fold f xs s)"
  by (induction xs arbitrary: s) (simp_all add: bind_result_def)

lemma dict_get_lookup: "key \<in> fst ` set d \<Longrightarrow> dict_get d key = Inr (lookup d key)"
  by (auto simp: dict_get_def lookup_def map_of_eq_None_iff split: option.splits)

lemma list_get_nth: "i < length xs \<Longrightarrow> list_get xs i = Inr (xs ! i)"
  by (simp add: list_get_def)

lemma bind_result_Inr [simp]: "bind_result (Inr x) f = f x"
  by (simp add: bind_result_def)

text \<open>
  The lookups \<^verbatim>\<open>after[key]\<close> and \<^verbatim>\<open>before[key]\<close> of the three \<^verbatim>\<open>for\<close> statements are made
  for keys that the dict holds, and the list case reads \<^verbatim>\<open>after[i]\<close> for \<open>i\<close> in
  \<^verbatim>\<open>range(len(before), len(after))\<close> and \<^verbatim>\<open>before[i]\<close> for \<open>i\<close> in
  \<^verbatim>\<open>range(len(after), len(before))\<close>: no lookup of \<^verbatim>\<open>find_differences\<close> raises, and the
  function returns the value of \<open>diff_of\<close>.
\<close>

theorem find_differences_returns:
  "find_differences so before after path = Inr (diff_of so before after path)"
proof (induction so before after path rule: diff_of_cases_induct)
  case (dict so b a p)
  have A: "for_each
      (\<lambda>key d. bind_result (dict_get a key)
         (\<lambda>v. Inr (d\<lparr>added := dict_set (added d) (key_path p key) v\<rparr>)))
      L d0 =
    Inr (fold (\<lambda>key d. d\<lparr>added := dict_set (added d) (key_path p key) (lookup a key)\<rparr>) L d0)"
    if "set L \<subseteq> fst ` set a" for L d0
  proof (rule for_each_pure)
    fix x s assume "x \<in> set L"
    with that have "x \<in> fst ` set a" by auto
    then show "bind_result (dict_get a x)
          (\<lambda>v. Inr (s\<lparr>added := dict_set (added s) (key_path p x) v\<rparr>)) =
        Inr (s\<lparr>added := dict_set (added s) (key_path p x) (lookup a x)\<rparr>)"
      by (simp add: dict_get_lookup)
  qed
  have B: "for_each
      (\<lambda>key d. bind_result (dict_get b key)
         (\<lambda>v. Inr (d\<lparr>removed := dict_set (removed d) (key_path p key) v\<rparr>)))
      L d0 =
    Inr (fold (\<lambda>key d. d\<lparr>removed := dict_set (removed d) (key_path p key) (lookup b key)\<rparr>) L d0)"
    if "set L \<subseteq> fst ` set b" for L d0
  proof (rule for_each_pure)
    fix x s assume "x \<in> set L"
    with that have "x \<in> fst ` set b" by auto
    then show "bind_result (dict_get b x)
          (\<lambda>v. Inr (s\<lparr>removed := dict_set (removed s) (key_path p x) v\<rparr>)) =
        Inr (s\<lparr>removed := dict_set (removed s) (key_path p x) (lookup b x)\<rparr>)"
      by (simp add: dict_get_lookup)
  qed
  have C: "for_each
      (\<lambda>key d. bind_result (dict_get b key)
         (\<lambda>b_item. bind_result (dict_get a key)
            (\<lambda>a_item. bind_result (find_differences so b_item a_item (key_path p key))
               (\<lambda>sub_diff. Inr (merge_sub_diff sub_diff d)))))
      L d0 =
    Inr (fold (\<lambda>key d. merge_sub_diff (diff_of so (lookup b key) (lookup a key) (key_path p key)) d)
           L d0)"
    if "set L \<subseteq> fst ` set b" and "set L \<subseteq> fst ` set a" for L d0
  proof (rule for_each_pure)
    fix x s assume "x \<in> set L"
    with that have x: "x \<in> fst ` set b" "x \<in> fst ` set a" by auto
    then show "bind_result (dict_get b x)
         (\<lambda>b_item. bind_result (dict_get a x)
            (\<lambda>a_item. bind_result (find_differences so b_item a_item (key_path p x))
               (\<lambda>sub_diff. Inr (merge_sub_diff sub_diff s)))) =
        Inr (merge_sub_diff (diff_of so (lookup b x) (lookup a x) (key_path p x)) s)"
      using dict.IH[of x] by (simp add: dict_get_lookup)
  qed
  have sub: "{x \<in> fst ` set a. x \<notin> fst ` set b} \<subseteq> fst ` set a"
    "{x \<in> fst ` set b. x \<notin> fst ` set a} \<subseteq> fst ` set b"
    "{x \<in> fst ` set b. x \<in> fst ` set a} \<subseteq> fst ` set b"
    "{x \<in> fst ` set b. x \<in> fst ` set a} \<subseteq> fst ` set a"
    by auto
  show ?case
    by (subst find_differences.simps) (simp add: Let_def A B C sub diff_of_dict)
next
  case (list so b a p)
  have A: "for_each
      (\<lambda>(i, (b_item, a_item)) d. bind_result (find_differences so b_item a_item (index_path p i))
         (\<lambda>sub_diff. Inr (merge_sub_diff sub_diff d)))
      (enumerate 0 (zip b a)) d0 =
    Inr (fold (\<lambda>(i, (b_item, a_item)) d. merge_sub_diff
                 (diff_of so b_item a_item (index_path p i)) d)
           (enumerate 0 (zip b a)) d0)"
    for d0
  proof (rule for_each_pure)
    fix x s assume "x \<in> set (enumerate 0 (zip b a))"
    then obtain i where i: "i < length b" "i < length a" "x = (i, (b ! i, a ! i))"
      by (auto simp: enumerate_zip_nth)
    then show "(case x of (i, b_item, a_item) \<Rightarrow> \<lambda>d. bind_result
          (find_differences so b_item a_item (index_path p i))
          (\<lambda>sub_diff. Inr (merge_sub_diff sub_diff d))) s =
        Inr ((case x of (i, b_item, a_item) \<Rightarrow>
              merge_sub_diff (diff_of so b_item a_item (index_path p i))) s)"
      using list.IH[of i] by simp
  qed
  have B: "for_each
      (\<lambda>i d. bind_result (list_get a i)
         (\<lambda>v. Inr (d\<lparr>added := dict_set (added d) (py_strip_dots (index_path p i)) v\<rparr>)))
      [length b..<length a] d0 =
    Inr (fold (\<lambda>i d. d\<lparr>added := dict_set (added d) (py_strip_dots (index_path p i)) (a ! i)\<rparr>)
           [length b..<length a] d0)"
    for d0
    by (rule for_each_pure) (simp add: list_get_nth)
  have C: "for_each
      (\<lambda>i d. bind_result (list_get b i)
         (\<lambda>v. Inr (d\<lparr>removed := dict_set (removed d) (py_strip_dots (index_path p i)) v\<rparr>)))
      [length a..<length b] d0 =
    Inr (fold (\<lambda>i d. d\<lparr>removed := dict_set (removed d) (py_strip_dots (index_path p i)) (b ! i)\<rparr>)
           [length a..<length b] d0)"
    for d0
    by (rule for_each_pure) (simp add: list_get_nth)
  show ?case
    by (subst find_differences.simps) (simp add: Let_def A B C diff_of_list)
next
  case (other so before after p)
  then show ?case
    by (subst find_differences.simps)
      (simp only: other if_False, simp add: diff_of_other[OF other] no_differences_def dict_set_def)
qed

lemma get_the_differences_returns:
  "get_the_differences so before after =
     Inr (if added (diff_of so before after []) \<noteq> [] \<or> removed (diff_of so before after []) \<noteq> [] \<or>
             changed (diff_of so before after []) \<noteq> []
          then Some (diff_of so before after []) else None)"
  by (simp add: get_the_differences_def find_differences_returns)

lemma get_the_differences_total: "\<exists>diff. get_the_differences so before after = Inr diff"
  unfolding get_the_differences_returns by (rule exI) (rule refl)

section \<open>Paths built from plain keys\<close>

lemma strip_good: "good_path p \<Longrightarrow> py_strip_dots p = p"
proof (cases "p = []")
  case True
  then show ?thesis by (simp add: py_strip_dots_def)
next
  case False
  assume "good_path p"
  with False have h: "hd p \<noteq> CHR ''.''" and l: "last p \<noteq> CHR ''.''"
    by (auto simp: good_path_def)
  from False h have 1: "dropWhile (\<lambda>c. c = CHR ''.'') p = p"
    by (cases p) auto
  from False l have 2: "dropWhile (\<lambda>c. c = CHR ''.'') (rev p) = rev p"
    by (cases "rev p") (auto simp: last_rev hd_rev dest: arg_cong[where f=hd])
  show ?thesis by (simp add: py_strip_dots_def 1 2)
qed

lemma plain_key_hd_last:
  "plain_key k \<Longrightarrow> k \<noteq> [] \<and> hd k \<noteq> CHR ''.'' \<and> last k \<noteq> CHR ''.'' \<and> hd k \<noteq> CHR ''[''"
  unfolding plain_key_def by (metis hd_in_set last_in_set)

lemma key_path_plain:
  assumes "plain_key k" and "good_path p"
  shows "key_path p k = (if p = [] then k else p @ ''.'' @ k)"
proof (cases "p = []")
  case True
  from plain_key_hd_last[OF assms(1)] have k: "k \<noteq> []" "hd k \<noteq> CHR ''.''" "last k \<noteq> CHR ''.''"
    by auto
  then have "good_path k" by (simp add: good_path_def)
  then have "py_strip_dots k = k" by (rule strip_good)
  moreover have "py_strip_dots (''.'' @ k) = py_strip_dots k"
    using k by (cases k) (auto simp: py_strip_dots_def)
  ultimately show ?thesis using True by (simp add: key_path_def)
next
  case False
  from plain_key_hd_last[OF assms(1)] have k: "k \<noteq> []" "last k \<noteq> CHR ''.''" by auto
  from False assms(2) have "hd p \<noteq> CHR ''.''" by (auto simp: good_path_def)
  with False k have "good_path (p @ ''.'' @ k)"
    by (auto simp: good_path_def)
  then show ?thesis using False by (simp add: key_path_def strip_good)
qed

lemma good_key_path:
  assumes "plain_key k" and "good_path p"
  shows "good_path (key_path p k)" and "key_path p k \<noteq> []"
proof -
  from plain_key_hd_last[OF assms(1)]
  have k: "k \<noteq> []" "hd k \<noteq> CHR ''.''" "last k \<noteq> CHR ''.''" by auto
  show "good_path (key_path p k)"
    using k assms(2) by (auto simp: key_path_plain[OF assms] good_path_def)
  show "key_path p k \<noteq> []"
    using k by (simp add: key_path_plain[OF assms])
qed

lemma good_index_path:
  assumes "good_path p"
  shows "good_path (index_path p i)" and "index_path p i \<noteq> []"
    and "py_strip_dots (index_path p i) = index_path p i"
proof -
  show g: "good_path (index_path p i)"
    using assms by (cases p) (auto simp: index_path_def good_path_def)
  show "index_path p i \<noteq> []" by (simp add: index_path_def)
  show "py_strip_dots (index_path p i) = index_path p i" by (rule strip_good[OF g])
qed

lemma below_refl [simp]: "below p p"
  by (simp add: below_def)

lemma below_key_path:
  assumes "plain_key k" and "good_path p" and "below (key_path p k) q"
  shows "below p q"
proof (cases "p = []")
  case True
  then show ?thesis by (simp add: below_def)
next
  case False
  with assms(3) obtain s where "q = (p @ ''.'' @ k) @ s"
    by (auto simp: below_def key_path_plain[OF assms(1,2)])
  then have "q = p @ (''.'' @ k @ s)" by simp
  then show ?thesis unfolding below_def by (intro disjI2 exI[of _ "''.'' @ k @ s"]) simp
qed

lemma below_index_path:
  assumes "below (index_path p i) q"
  shows "below p q"
proof -
  from assms obtain s where "q = index_path p i @ s"
    by (auto simp: below_def index_path_def)
  then have "q = p @ (''['' @ py_str i @ '']'' @ s)" by (simp add: index_path_def)
  then show ?thesis unfolding below_def by (intro disjI2 exI[of _ "''['' @ py_str i @ '']'' @ s"]) simp
qed

text \<open>Two different keys, or two different indices, of one node: no path is below both of their paths.\<close>

lemma takeWhile_plain:
  assumes "plain_key k" and "s = [] \<or> hd s = CHR ''.'' \<or> hd s = CHR ''[''"
  shows "takeWhile (\<lambda>c. c \<noteq> CHR ''.'' \<and> c \<noteq> CHR ''['') (k @ s) = k"
proof -
  have "takeWhile (\<lambda>c. c \<noteq> CHR ''.'' \<and> c \<noteq> CHR ''['') s = []"
    using assms(2) by (cases s) auto
  moreover have "\<And>c. c \<in> set k \<Longrightarrow> c \<noteq> CHR ''.'' \<and> c \<noteq> CHR ''[''"
    using assms(1) by (auto simp: plain_key_def)
  ultimately show ?thesis by (simp add: takeWhile_append2)
qed

lemma key_siblings:
  assumes "plain_key k1" and "plain_key k2" and "good_path p"
    and "below (key_path p k1) q" and "below (key_path p k2) q"
  shows "k1 = k2"
proof -
  define pre where "pre = (if p = [] then [] else p @ ''.'')"
  have kp: "key_path p k1 = pre @ k1" "key_path p k2 = pre @ k2"
    by (simp_all add: key_path_plain assms pre_def)
  have ne: "pre @ k1 \<noteq> []" "pre @ k2 \<noteq> []"
    using plain_key_hd_last[OF assms(1)] plain_key_hd_last[OF assms(2)] by auto
  from assms(4) ne obtain s1 where s1: "q = pre @ k1 @ s1" "s1 = [] \<or> hd s1 = CHR ''.'' \<or> hd s1 = CHR ''[''"
    by (auto simp: below_def kp)
  from assms(5) ne obtain s2 where s2: "q = pre @ k2 @ s2" "s2 = [] \<or> hd s2 = CHR ''.'' \<or> hd s2 = CHR ''[''"
    by (auto simp: below_def kp)
  from s1 s2 have "k1 @ s1 = k2 @ s2" by simp
  then have "takeWhile (\<lambda>c. c \<noteq> CHR ''.'' \<and> c \<noteq> CHR ''['') (k1 @ s1) =
      takeWhile (\<lambda>c. c \<noteq> CHR ''.'' \<and> c \<noteq> CHR ''['') (k2 @ s2)" by simp
  then show ?thesis
    by (simp add: takeWhile_plain[OF assms(1) s1(2)] takeWhile_plain[OF assms(2) s2(2)])
qed

text \<open>The decimal digits of an index: \<^verbatim>\<open>str\<close> is injective and writes no closing bracket.\<close>

lemma of_char_digit: "d < 10 \<Longrightarrow> of_char (digit_char d) = 48 + d"
  by (simp add: digit_char_def)

lemma digit_char_inj: "d < 10 \<Longrightarrow> e < 10 \<Longrightarrow> digit_char d = digit_char e \<Longrightarrow> d = e"
  by (metis of_char_digit add_left_cancel)

lemma digit_char_not_bracket: "d < 10 \<Longrightarrow> digit_char d \<noteq> CHR '']''"
proof
  assume "d < 10" "digit_char d = CHR '']''"
  then have "of_char (digit_char d) = (of_char (CHR '']'') :: nat)" by simp
  with \<open>d < 10\<close> show False by (simp add: of_char_digit)
qed

lemma py_str_nonempty: "py_str n \<noteq> []"
  by (subst py_str.simps) simp

lemma py_str_digits: "c \<in> set (py_str n) \<Longrightarrow> c \<noteq> CHR '']''"
proof (induction n rule: py_str.induct)
  case (1 n)
  show ?case
  proof (cases "n < 10")
    case True
    with "1.prems" show ?thesis
      by (subst (asm) py_str.simps) (auto simp: digit_char_not_bracket)
  next
    case False
    with "1.prems" have "c \<in> set (py_str (n div 10)) \<or> c = digit_char (n mod 10)"
      by (subst (asm) py_str.simps) auto
    moreover have "digit_char (n mod 10) \<noteq> CHR '']''"
      by (rule digit_char_not_bracket) simp
    ultimately show ?thesis using "1.IH"[OF False] by auto
  qed
qed

lemma py_str_inj: "py_str n = py_str m \<Longrightarrow> n = m"
proof (induction n arbitrary: m rule: py_str.induct)
  case (1 n)
  show ?case
  proof (cases "n < 10")
    case n: True
    show ?thesis
    proof (cases "m < 10")
      case True
      with n "1.prems" show ?thesis
        by (subst (asm) py_str.simps, subst (asm) (2) py_str.simps) (auto dest: digit_char_inj)
    next
      case False
      with n "1.prems" have "[digit_char n] = py_str (m div 10) @ [digit_char (m mod 10)]"
        by (subst (asm) py_str.simps, subst (asm) (2) py_str.simps) auto
      then show ?thesis using py_str_nonempty[of "m div 10"] by simp
    qed
  next
    case n: False
    show ?thesis
    proof (cases "m < 10")
      case True
      with n "1.prems" have "py_str (n div 10) @ [digit_char (n mod 10)] = [digit_char m]"
        by (subst (asm) py_str.simps, subst (asm) (2) py_str.simps) auto
      then show ?thesis using py_str_nonempty[of "n div 10"] by simp
    next
      case False
      with n "1.prems" have "py_str (n div 10) @ [digit_char (n mod 10)] =
          py_str (m div 10) @ [digit_char (m mod 10)]"
        by (subst (asm) py_str.simps, subst (asm) (2) py_str.simps) auto
      then have "py_str (n div 10) = py_str (m div 10)"
        and "digit_char (n mod 10) = digit_char (m mod 10)" by auto
      then have "n div 10 = m div 10" and "n mod 10 = m mod 10"
        using "1.IH"[OF n] digit_char_inj[of "n mod 10" "m mod 10"] by auto
      then show ?thesis by (metis div_mult_mod_eq)
    qed
  qed
qed

lemma index_siblings:
  assumes "below (index_path p i) q" and "below (index_path p j) q"
  shows "i = j"
proof -
  from assms(1) obtain s1 where "q = p @ ''['' @ py_str i @ '']'' @ s1"
    by (auto simp: below_def index_path_def)
  moreover from assms(2) obtain s2 where "q = p @ ''['' @ py_str j @ '']'' @ s2"
    by (auto simp: below_def index_path_def)
  ultimately have "py_str i @ ('']'' @ s1) = py_str j @ ('']'' @ s2)" by simp
  then have "takeWhile (\<lambda>c. c \<noteq> CHR '']'') (py_str i @ ('']'' @ s1)) =
      takeWhile (\<lambda>c. c \<noteq> CHR '']'') (py_str j @ ('']'' @ s2))" by simp
  then have "py_str i = py_str j"
    by (simp add: takeWhile_append2 py_str_digits)
  then show ?thesis by (rule py_str_inj)
qed

section \<open>The paths of a result\<close>

lemma plain_lookup:
  assumes "plain_keys (JDict kvs)" and "k \<in> fst ` set kvs"
  shows "plain_key k" and "plain_keys (lookup kvs k)"
proof -
  from assms(2) have "(k, lookup kvs k) \<in> set kvs" by (intro lookup_in) simp
  with assms(1) show "plain_key k" and "plain_keys (lookup kvs k)"
    by (auto simp: list_all_iff)
qed

lemma plain_key_of_dict:
  assumes "plain_keys (JDict kvs)" and "k \<in> fst ` set kvs"
  shows "plain_key k"
  using assms by (auto simp: list_all_iff)

lemma plain_list_nth:
  "plain_keys (JList xs) \<Longrightarrow> i < length xs \<Longrightarrow> plain_keys (xs ! i)"
  by (simp add: list_all_length)

text \<open>Where the paths of the dict case come from.\<close>

lemma keys_added_dict:
  "fst ` set (added (diff_of so (JDict b) (JDict a) p)) =
     key_path p ` (fst ` set a - fst ` set b) \<union>
     (\<Union>k \<in> fst ` set b \<inter> fst ` set a.
        fst ` set (added (diff_of so (lookup b k) (lookup a k) (key_path p k))))"
  by (auto simp: diff_of_dict_fields keys_fold_dict_update keys_fold_dict_set)

lemma keys_removed_dict:
  "fst ` set (removed (diff_of so (JDict b) (JDict a) p)) =
     key_path p ` (fst ` set b - fst ` set a) \<union>
     (\<Union>k \<in> fst ` set b \<inter> fst ` set a.
        fst ` set (removed (diff_of so (lookup b k) (lookup a k) (key_path p k))))"
  by (auto simp: diff_of_dict_fields keys_fold_dict_update keys_fold_dict_set)

lemma keys_changed_dict:
  "fst ` set (changed (diff_of so (JDict b) (JDict a) p)) =
     (\<Union>k \<in> fst ` set b \<inter> fst ` set a.
        fst ` set (changed (diff_of so (lookup b k) (lookup a k) (key_path p k))))"
  by (auto simp: diff_of_dict_fields keys_fold_dict_update keys_fold_dict_set)

lemma keys_added_list:
  "fst ` set (added (diff_of so (JList b) (JList a) p)) =
     (\<lambda>i. py_strip_dots (index_path p i)) ` {length b..<length a} \<union>
     (\<Union>i \<in> {..<min (length b) (length a)}.
        fst ` set (added (diff_of so (b ! i) (a ! i) (index_path p i))))"
  by (auto simp: diff_of_list_fields keys_fold_dict_update keys_fold_dict_set)

lemma keys_removed_list:
  "fst ` set (removed (diff_of so (JList b) (JList a) p)) =
     (\<lambda>i. py_strip_dots (index_path p i)) ` {length a..<length b} \<union>
     (\<Union>i \<in> {..<min (length b) (length a)}.
        fst ` set (removed (diff_of so (b ! i) (a ! i) (index_path p i))))"
  by (auto simp: diff_of_list_fields keys_fold_dict_update keys_fold_dict_set)

lemma keys_changed_list:
  "fst ` set (changed (diff_of so (JList b) (JList a) p)) =
     (\<Union>i \<in> {..<min (length b) (length a)}.
        fst ` set (changed (diff_of so (b ! i) (a ! i) (index_path p i))))"
  by (auto simp: diff_of_list_fields keys_fold_dict_update keys_fold_dict_set)

lemma keys_other:
  assumes "\<not> (is_dict before \<and> is_dict after)" and "\<not> (is_list before \<and> is_list after)"
  shows "diff_keys (diff_of so before after p) \<subseteq> {p}"
    and "added (diff_of so before after p) = []"
    and "removed (diff_of so before after p) = []"
  by (auto simp: diff_of_other[OF assms] diff_keys_def no_differences_def)

lemma diff_keys_dict:
  "diff_keys (diff_of so (JDict b) (JDict a) p) =
     key_path p ` (fst ` set a - fst ` set b) \<union> key_path p ` (fst ` set b - fst ` set a) \<union>
     (\<Union>k \<in> fst ` set b \<inter> fst ` set a.
        diff_keys (diff_of so (lookup b k) (lookup a k) (key_path p k)))"
  unfolding diff_keys_def keys_added_dict keys_removed_dict keys_changed_dict by auto

lemma diff_keys_list:
  "diff_keys (diff_of so (JList b) (JList a) p) =
     (\<lambda>i. py_strip_dots (index_path p i)) ` {length b..<length a} \<union>
     (\<lambda>i. py_strip_dots (index_path p i)) ` {length a..<length b} \<union>
     (\<Union>i \<in> {..<min (length b) (length a)}.
        diff_keys (diff_of so (b ! i) (a ! i) (index_path p i)))"
  unfolding diff_keys_def keys_added_list keys_removed_list keys_changed_list by auto

lemma keys_below:
  "plain_keys before \<Longrightarrow> plain_keys after \<Longrightarrow> good_path p \<Longrightarrow>
   q \<in> diff_keys (diff_of so before after p) \<Longrightarrow> below p q"
proof (induction so before after p arbitrary: q rule: diff_of_cases_induct)
  case (dict so b a p)
  from dict.prems(4) consider
      k where "k \<in> fst ` set a \<union> fst ` set b" "q = key_path p k"
    | k where "k \<in> fst ` set b" "k \<in> fst ` set a"
        "q \<in> diff_keys (diff_of so (lookup b k) (lookup a k) (key_path p k))"
    unfolding diff_keys_dict by blast
  then show ?case
  proof cases
    case 1
    then have "plain_key k"
      using plain_key_of_dict dict.prems(1,2) by blast
    then show ?thesis
      using below_key_path[OF _ dict.prems(3), of k q] 1 by simp
  next
    case 2
    have pk: "plain_key k" using plain_key_of_dict[OF dict.prems(1) 2(1)] .
    have "below (key_path p k) q"
      using dict.IH[of k q] 2 plain_lookup(2)[OF dict.prems(1) 2(1)]
        plain_lookup(2)[OF dict.prems(2) 2(2)] good_key_path(1)[OF pk dict.prems(3)]
      by simp
    then show ?thesis by (rule below_key_path[OF pk dict.prems(3)])
  qed
next
  case (list so b a p)
  from list.prems(4) have "(\<exists>i. q = py_strip_dots (index_path p i)) \<or>
      (\<exists>i. i < min (length b) (length a) \<and>
         q \<in> diff_keys (diff_of so (b ! i) (a ! i) (index_path p i)))"
    unfolding diff_keys_list by blast
  then consider
      i where "q = py_strip_dots (index_path p i)"
    | i where "i < length b" "i < length a"
        "q \<in> diff_keys (diff_of so (b ! i) (a ! i) (index_path p i))"
    by auto
  then show ?case
  proof cases
    case 1
    then show ?thesis
      using below_index_path[of p i q] good_index_path(3)[OF list.prems(3)] by simp
  next
    case 2
    have "below (index_path p i) q"
      using list.IH[of i q] 2 plain_list_nth[OF list.prems(1) 2(1)]
        plain_list_nth[OF list.prems(2) 2(2)] good_index_path(1)[OF list.prems(3)]
      by simp
    then show ?thesis by (rule below_index_path)
  qed
next
  case (other so before after p)
  then show ?case using keys_other(1)[OF other(1,2), of so p] by auto
qed

lemma in_diff_keys:
  "q \<in> fst ` set (added d) \<Longrightarrow> q \<in> diff_keys d"
  "q \<in> fst ` set (removed d) \<Longrightarrow> q \<in> diff_keys d"
  "q \<in> fst ` set (changed d) \<Longrightarrow> q \<in> diff_keys d"
  by (auto simp: diff_keys_def)

lemma paths_apart_plain:
  "plain_keys before \<Longrightarrow> plain_keys after \<Longrightarrow> good_path p \<Longrightarrow>
   paths_apart (diff_of so before after p)"
proof (induction so before after p rule: diff_of_cases_induct)
  case (dict so b a p)
  let ?sub = "\<lambda>k. diff_of so (lookup b k) (lookup a k) (key_path p k)"
  have pk: "\<And>k. k \<in> fst ` set a \<union> fst ` set b \<Longrightarrow> plain_key k"
    using plain_key_of_dict dict.prems(1,2) by blast
  have sub_below: "\<And>k q. k \<in> fst ` set b \<Longrightarrow> k \<in> fst ` set a \<Longrightarrow> q \<in> diff_keys (?sub k) \<Longrightarrow>
      below (key_path p k) q"
  proof -
    fix k q assume k: "k \<in> fst ` set b" "k \<in> fst ` set a" and q: "q \<in> diff_keys (?sub k)"
    show "below (key_path p k) q"
      using keys_below[OF plain_lookup(2)[OF dict.prems(1) k(1)]
          plain_lookup(2)[OF dict.prems(2) k(2)]
          good_key_path(1)[OF plain_key_of_dict[OF dict.prems(1) k(1)] dict.prems(3)] q] .
  qed
  have sub_apart: "\<And>k. k \<in> fst ` set b \<Longrightarrow> k \<in> fst ` set a \<Longrightarrow> paths_apart (?sub k)"
  proof -
    fix k assume k: "k \<in> fst ` set b" "k \<in> fst ` set a"
    show "paths_apart (?sub k)"
      using dict.IH[of k] k plain_lookup(2)[OF dict.prems(1) k(1)]
          plain_lookup(2)[OF dict.prems(2) k(2)]
          good_key_path(1)[OF plain_key_of_dict[OF dict.prems(1) k(1)] dict.prems(3)]
      by simp
  qed
  have sib: "\<And>k1 k2 q. plain_key k1 \<Longrightarrow> plain_key k2 \<Longrightarrow>
      below (key_path p k1) q \<Longrightarrow> below (key_path p k2) q \<Longrightarrow> k1 = k2"
    using key_siblings[OF _ _ dict.prems(3)] by blast
  have src_added: "\<exists>k. plain_key k \<and> below (key_path p k) q \<and>
      ((k \<in> fst ` set a \<and> k \<notin> fst ` set b) \<or>
       (k \<in> fst ` set b \<and> k \<in> fst ` set a \<and> q \<in> fst ` set (added (?sub k))))"
    if "q \<in> fst ` set (added (diff_of so (JDict b) (JDict a) p))" for q
  proof -
    from that consider k where "k \<in> fst ` set a" "k \<notin> fst ` set b" "q = key_path p k"
      | k where "k \<in> fst ` set b" "k \<in> fst ` set a" "q \<in> fst ` set (added (?sub k))"
      unfolding keys_added_dict by blast
    then show ?thesis
    proof cases
      case 1
      then show ?thesis using pk[of k] by (intro exI[of _ k]) simp
    next
      case 2
      then show ?thesis using pk[of k] sub_below[of k q] in_diff_keys(1)
        by (intro exI[of _ k]) simp
    qed
  qed
  have src_removed: "\<exists>k. plain_key k \<and> below (key_path p k) q \<and>
      ((k \<in> fst ` set b \<and> k \<notin> fst ` set a) \<or>
       (k \<in> fst ` set b \<and> k \<in> fst ` set a \<and> q \<in> fst ` set (removed (?sub k))))"
    if "q \<in> fst ` set (removed (diff_of so (JDict b) (JDict a) p))" for q
  proof -
    from that consider k where "k \<in> fst ` set b" "k \<notin> fst ` set a" "q = key_path p k"
      | k where "k \<in> fst ` set b" "k \<in> fst ` set a" "q \<in> fst ` set (removed (?sub k))"
      unfolding keys_removed_dict by blast
    then show ?thesis
    proof cases
      case 1
      then show ?thesis using pk[of k] by (intro exI[of _ k]) simp
    next
      case 2
      then show ?thesis using pk[of k] sub_below[of k q] in_diff_keys(2)
        by (intro exI[of _ k]) simp
    qed
  qed
  have src_changed: "\<exists>k. plain_key k \<and> below (key_path p k) q \<and>
       (k \<in> fst ` set b \<and> k \<in> fst ` set a \<and> q \<in> fst ` set (changed (?sub k)))"
    if "q \<in> fst ` set (changed (diff_of so (JDict b) (JDict a) p))" for q
  proof -
    from that obtain k where k: "k \<in> fst ` set b" "k \<in> fst ` set a"
        "q \<in> fst ` set (changed (?sub k))"
      unfolding keys_changed_dict by blast
    then show ?thesis using pk[of k] sub_below[of k q] in_diff_keys(3)
      by (intro exI[of _ k]) simp
  qed
  have 1: "fst ` set (added (diff_of so (JDict b) (JDict a) p)) \<inter>
      fst ` set (removed (diff_of so (JDict b) (JDict a) p)) = {}"
  proof (rule ccontr)
    assume "\<not> ?thesis"
    then obtain q where qa: "q \<in> fst ` set (added (diff_of so (JDict b) (JDict a) p))"
      and qr: "q \<in> fst ` set (removed (diff_of so (JDict b) (JDict a) p))" by blast
    from src_added[OF qa] src_removed[OF qr] sib sub_apart
    show False unfolding paths_apart_def by (metis disjoint_iff)
  qed
  have 2: "fst ` set (added (diff_of so (JDict b) (JDict a) p)) \<inter>
      fst ` set (changed (diff_of so (JDict b) (JDict a) p)) = {}"
  proof (rule ccontr)
    assume "\<not> ?thesis"
    then obtain q where qa: "q \<in> fst ` set (added (diff_of so (JDict b) (JDict a) p))"
      and qr: "q \<in> fst ` set (changed (diff_of so (JDict b) (JDict a) p))" by blast
    from src_added[OF qa] src_changed[OF qr] sib sub_apart
    show False unfolding paths_apart_def by (metis disjoint_iff)
  qed
  have 3: "fst ` set (removed (diff_of so (JDict b) (JDict a) p)) \<inter>
      fst ` set (changed (diff_of so (JDict b) (JDict a) p)) = {}"
  proof (rule ccontr)
    assume "\<not> ?thesis"
    then obtain q where qa: "q \<in> fst ` set (removed (diff_of so (JDict b) (JDict a) p))"
      and qr: "q \<in> fst ` set (changed (diff_of so (JDict b) (JDict a) p))" by blast
    from src_removed[OF qa] src_changed[OF qr] sib sub_apart
    show False unfolding paths_apart_def by (metis disjoint_iff)
  qed
  from 1 2 3 show ?case by (simp add: paths_apart_def)
next
  case (list so b a p)
  let ?sub = "\<lambda>i. diff_of so (b ! i) (a ! i) (index_path p i)"
  have strip: "\<And>i. py_strip_dots (index_path p i) = index_path p i"
    using good_index_path(3)[OF list.prems(3)] .
  have sub_below: "\<And>i q. i < length b \<Longrightarrow> i < length a \<Longrightarrow> q \<in> diff_keys (?sub i) \<Longrightarrow>
      below (index_path p i) q"
  proof -
    fix i q assume i: "i < length b" "i < length a" and q: "q \<in> diff_keys (?sub i)"
    show "below (index_path p i) q"
      using keys_below[OF plain_list_nth[OF list.prems(1) i(1)]
          plain_list_nth[OF list.prems(2) i(2)] good_index_path(1)[OF list.prems(3)] q] .
  qed
  have sub_apart: "\<And>i. i < length b \<Longrightarrow> i < length a \<Longrightarrow> paths_apart (?sub i)"
  proof -
    fix i assume i: "i < length b" "i < length a"
    show "paths_apart (?sub i)"
      using list.IH[OF i plain_list_nth[OF list.prems(1) i(1)]
          plain_list_nth[OF list.prems(2) i(2)] good_index_path(1)[OF list.prems(3)]] .
  qed
  have src_added: "\<exists>i. below (index_path p i) q \<and>
      ((length b \<le> i \<and> i < length a) \<or>
       (i < length b \<and> i < length a \<and> q \<in> fst ` set (added (?sub i))))"
    if "q \<in> fst ` set (added (diff_of so (JList b) (JList a) p))" for q
  proof -
    from that have "(\<exists>i. length b \<le> i \<and> i < length a \<and> q = index_path p i) \<or>
        (\<exists>i. i < min (length b) (length a) \<and> q \<in> fst ` set (added (?sub i)))"
      unfolding keys_added_list strip by auto
    then consider i where "length b \<le> i" "i < length a" "q = index_path p i"
      | i where "i < length b" "i < length a" "q \<in> fst ` set (added (?sub i))"
      by auto
    then show ?thesis
    proof cases
      case 1
      then show ?thesis by (intro exI[of _ i]) simp
    next
      case 2
      then show ?thesis using sub_below[of i q] in_diff_keys(1)
        by (intro exI[of _ i]) simp
    qed
  qed
  have src_removed: "\<exists>i. below (index_path p i) q \<and>
      ((length a \<le> i \<and> i < length b) \<or>
       (i < length b \<and> i < length a \<and> q \<in> fst ` set (removed (?sub i))))"
    if "q \<in> fst ` set (removed (diff_of so (JList b) (JList a) p))" for q
  proof -
    from that have "(\<exists>i. length a \<le> i \<and> i < length b \<and> q = index_path p i) \<or>
        (\<exists>i. i < min (length b) (length a) \<and> q \<in> fst ` set (removed (?sub i)))"
      unfolding keys_removed_list strip by auto
    then consider i where "length a \<le> i" "i < length b" "q = index_path p i"
      | i where "i < length b" "i < length a" "q \<in> fst ` set (removed (?sub i))"
      by auto
    then show ?thesis
    proof cases
      case 1
      then show ?thesis by (intro exI[of _ i]) simp
    next
      case 2
      then show ?thesis using sub_below[of i q] in_diff_keys(2)
        by (intro exI[of _ i]) simp
    qed
  qed
  have src_changed: "\<exists>i. below (index_path p i) q \<and>
       (i < length b \<and> i < length a \<and> q \<in> fst ` set (changed (?sub i)))"
    if "q \<in> fst ` set (changed (diff_of so (JList b) (JList a) p))" for q
  proof -
    from that have "\<exists>i. i < min (length b) (length a) \<and> q \<in> fst ` set (changed (?sub i))"
      unfolding keys_changed_list by auto
    then obtain i where i: "i < length b" "i < length a" "q \<in> fst ` set (changed (?sub i))"
      by auto
    then show ?thesis using sub_below[of i q] in_diff_keys(3)
      by (intro exI[of _ i]) simp
  qed
  have 1: "fst ` set (added (diff_of so (JList b) (JList a) p)) \<inter>
      fst ` set (removed (diff_of so (JList b) (JList a) p)) = {}"
  proof (rule ccontr)
    assume "\<not> ?thesis"
    then obtain q where qa: "q \<in> fst ` set (added (diff_of so (JList b) (JList a) p))"
      and qr: "q \<in> fst ` set (removed (diff_of so (JList b) (JList a) p))" by blast
    from src_added[OF qa] obtain i where i: "below (index_path p i) q"
      "(length b \<le> i \<and> i < length a) \<or>
       (i < length b \<and> i < length a \<and> q \<in> fst ` set (added (?sub i)))" by blast
    from src_removed[OF qr] obtain j where j: "below (index_path p j) q"
      "(length a \<le> j \<and> j < length b) \<or>
       (j < length b \<and> j < length a \<and> q \<in> fst ` set (removed (?sub j)))" by blast
    from i(1) j(1) have "i = j" by (rule index_siblings)
    with i(2) j(2) sub_apart[of i] show False
      unfolding paths_apart_def by (metis disjoint_iff leD)
  qed
  have 2: "fst ` set (added (diff_of so (JList b) (JList a) p)) \<inter>
      fst ` set (changed (diff_of so (JList b) (JList a) p)) = {}"
  proof (rule ccontr)
    assume "\<not> ?thesis"
    then obtain q where qa: "q \<in> fst ` set (added (diff_of so (JList b) (JList a) p))"
      and qr: "q \<in> fst ` set (changed (diff_of so (JList b) (JList a) p))" by blast
    from src_added[OF qa] obtain i where i: "below (index_path p i) q"
      "(length b \<le> i \<and> i < length a) \<or>
       (i < length b \<and> i < length a \<and> q \<in> fst ` set (added (?sub i)))" by blast
    from src_changed[OF qr] obtain j where j: "below (index_path p j) q"
      "j < length b \<and> j < length a \<and> q \<in> fst ` set (changed (?sub j))" by blast
    from i(1) j(1) have "i = j" by (rule index_siblings)
    with i(2) j(2) sub_apart[of i] show False
      unfolding paths_apart_def by (metis disjoint_iff leD)
  qed
  have 3: "fst ` set (removed (diff_of so (JList b) (JList a) p)) \<inter>
      fst ` set (changed (diff_of so (JList b) (JList a) p)) = {}"
  proof (rule ccontr)
    assume "\<not> ?thesis"
    then obtain q where qa: "q \<in> fst ` set (removed (diff_of so (JList b) (JList a) p))"
      and qr: "q \<in> fst ` set (changed (diff_of so (JList b) (JList a) p))" by blast
    from src_removed[OF qa] obtain i where i: "below (index_path p i) q"
      "(length a \<le> i \<and> i < length b) \<or>
       (i < length b \<and> i < length a \<and> q \<in> fst ` set (removed (?sub i)))" by blast
    from src_changed[OF qr] obtain j where j: "below (index_path p j) q"
      "j < length b \<and> j < length a \<and> q \<in> fst ` set (changed (?sub j))" by blast
    from i(1) j(1) have "i = j" by (rule index_siblings)
    with i(2) j(2) sub_apart[of i] show False
      unfolding paths_apart_def by (metis disjoint_iff leD)
  qed
  from 1 2 3 show ?case by (simp add: paths_apart_def)
next
  case (other so before after p)
  then show ?case using keys_other(2,3)[OF other(1,2), of so p] by (simp add: paths_apart_def)
qed

section \<open>The entries of a result\<close>

lemma set_dict_set_fresh:
  "k \<notin> fst ` set d \<Longrightarrow> set (dict_set d k v) = insert (k, v) (set d)"
  unfolding dict_set_def by (induction d) auto

lemma set_dict_update_fresh:
  "distinct (map fst other) \<Longrightarrow> fst ` set d \<inter> fst ` set other = {} \<Longrightarrow>
   set (dict_update d other) = set d \<union> set other"
  unfolding dict_update_def
proof (induction other arbitrary: d)
  case Nil
  then show ?case by simp
next
  case (Cons kv other)
  obtain k v where kv: "kv = (k, v)" by (cases kv)
  from Cons.prems kv have fresh: "k \<notin> fst ` set d" and k: "k \<notin> fst ` set other"
    and dist: "distinct (map fst other)" and disj: "fst ` set d \<inter> fst ` set other = {}"
    by auto
  have "fst ` set (dict_set d k v) \<inter> fst ` set other = {}"
    using k disj by auto
  from Cons.IH[OF dist this] show ?case
    by (simp add: kv set_dict_set_fresh[OF fresh])
qed

lemma set_fold_dict_set_fresh:
  "distinct xs \<Longrightarrow> inj_on f (set xs) \<Longrightarrow> f ` set xs \<inter> fst ` set acc0 = {} \<Longrightarrow>
   set (fold (\<lambda>x acc. dict_set acc (f x) (g x)) xs acc0) = set acc0 \<union> (\<lambda>x. (f x, g x)) ` set xs"
proof (induction xs arbitrary: acc0)
  case Nil
  then show ?case by simp
next
  case (Cons x xs)
  from Cons.prems have fresh: "f x \<notin> fst ` set acc0" by auto
  have "f ` set xs \<inter> fst ` set (dict_set acc0 (f x) (g x)) = {}"
    using Cons.prems by (auto simp: inj_on_def)
  moreover from Cons.prems have "distinct xs" "inj_on f (set xs)" by auto
  ultimately have "set (fold (\<lambda>x acc. dict_set acc (f x) (g x)) xs (dict_set acc0 (f x) (g x))) =
      set (dict_set acc0 (f x) (g x)) \<union> (\<lambda>x. (f x, g x)) ` set xs"
    by (intro Cons.IH)
  then show ?case by (simp add: set_dict_set_fresh[OF fresh])
qed

lemma set_fold_dict_update_fresh:
  assumes "distinct xs"
    and "\<And>x. x \<in> set xs \<Longrightarrow> distinct (map fst (G x))"
    and "\<And>x. x \<in> set xs \<Longrightarrow> fst ` set (G x) \<inter> fst ` set acc0 = {}"
    and "\<And>x y. x \<in> set xs \<Longrightarrow> y \<in> set xs \<Longrightarrow> x \<noteq> y \<Longrightarrow> fst ` set (G x) \<inter> fst ` set (G y) = {}"
  shows "set (fold (\<lambda>x acc. dict_update acc (G x)) xs acc0) = set acc0 \<union> (\<Union>x\<in>set xs. set (G x))"
  using assms
proof (induction xs arbitrary: acc0)
  case Nil
  then show ?case by simp
next
  case (Cons x xs)
  have step: "set (dict_update acc0 (G x)) = set acc0 \<union> set (G x)"
    using Cons.prems(2)[of x] Cons.prems(3)[of x] by (intro set_dict_update_fresh) auto
  have "set (fold (\<lambda>x acc. dict_update acc (G x)) xs (dict_update acc0 (G x))) =
      set (dict_update acc0 (G x)) \<union> (\<Union>x\<in>set xs. set (G x))"
  proof (rule Cons.IH)
    show "distinct xs" using Cons.prems(1) by simp
    show "\<And>y. y \<in> set xs \<Longrightarrow> distinct (map fst (G y))" using Cons.prems(2) by simp
    show "\<And>y. y \<in> set xs \<Longrightarrow> fst ` set (G y) \<inter> fst ` set (dict_update acc0 (G x)) = {}"
    proof -
      fix y assume y: "y \<in> set xs"
      with Cons.prems(1) have "y \<noteq> x" by auto
      then have "fst ` set (G y) \<inter> fst ` set (G x) = {}"
        using Cons.prems(4)[of y x] y by simp
      moreover have "fst ` set (G y) \<inter> fst ` set acc0 = {}"
        using Cons.prems(3)[of y] y by simp
      ultimately show "fst ` set (G y) \<inter> fst ` set (dict_update acc0 (G x)) = {}"
        by (simp add: Int_Un_distrib)
    qed
    show "\<And>y z. y \<in> set xs \<Longrightarrow> z \<in> set xs \<Longrightarrow> y \<noteq> z \<Longrightarrow> fst ` set (G y) \<inter> fst ` set (G z) = {}"
      using Cons.prems(4) by simp
  qed
  then show ?case by (simp add: step Un_assoc)
qed

text \<open>No mapping of a result repeats a path.\<close>

lemma distinct_fields:
  "distinct (map fst (added (diff_of so before after p)))"
  "distinct (map fst (removed (diff_of so before after p)))"
  "distinct (map fst (changed (diff_of so before after p)))"
proof -
  consider b a where "before = JDict b" "after = JDict a"
    | b a where "before = JList b" "after = JList a"
    | "\<not> (is_dict before \<and> is_dict after)" "\<not> (is_list before \<and> is_list after)"
    by (cases before; cases after) auto
  then have "distinct (map fst (added (diff_of so before after p))) \<and>
      distinct (map fst (removed (diff_of so before after p))) \<and>
      distinct (map fst (changed (diff_of so before after p)))"
  proof cases
    case 1
    then show ?thesis
      by (simp add: diff_of_dict_fields distinct_fold_dict_update distinct_fold_dict_set)
  next
    case 2
    then show ?thesis
      by (simp add: diff_of_list_fields distinct_fold_dict_update distinct_fold_dict_set)
  next
    case 3
    then show ?thesis
      by (simp add: diff_of_other no_differences_def)
  qed
  then show "distinct (map fst (added (diff_of so before after p)))"
    "distinct (map fst (removed (diff_of so before after p)))"
    "distinct (map fst (changed (diff_of so before after p)))" by simp_all
qed

lemma key_path_inj:
  assumes "good_path p" and "plain_key k1" and "plain_key k2" and "key_path p k1 = key_path p k2"
  shows "k1 = k2"
  using key_siblings[OF assms(2,3,1), of "key_path p k1"] assms(4) by simp

lemma sub_below_dict:
  assumes "plain_keys (JDict b)" and "plain_keys (JDict a)" and "good_path p"
    and "k \<in> fst ` set b" and "k \<in> fst ` set a"
    and "q \<in> diff_keys (diff_of so (lookup b k) (lookup a k) (key_path p k))"
  shows "below (key_path p k) q"
  using keys_below[OF plain_lookup(2)[OF assms(1,4)] plain_lookup(2)[OF assms(2,5)]
      good_key_path(1)[OF plain_key_of_dict[OF assms(1,4)] assms(3)] assms(6)] .

lemma sub_below_list:
  assumes "plain_keys (JList b)" and "plain_keys (JList a)" and "good_path p"
    and "i < length b" and "i < length a"
    and "q \<in> diff_keys (diff_of so (b ! i) (a ! i) (index_path p i))"
  shows "below (index_path p i) q"
  using keys_below[OF plain_list_nth[OF assms(1,4)] plain_list_nth[OF assms(2,5)]
      good_index_path(1)[OF assms(3)] assms(6)] .

lemma entries_merge_dict:
  fixes X :: "string \<Rightarrow> (string \<times> 'v) list"
  assumes pl: "plain_keys (JDict b)" "plain_keys (JDict a)" "good_path p"
    and sub: "\<And>k. k \<in> fst ` set b \<Longrightarrow> k \<in> fst ` set a \<Longrightarrow>
        fst ` set (X k) \<subseteq> diff_keys (diff_of so (lookup b k) (lookup a k) (key_path p k))"
    and dist: "\<And>k. distinct (map fst (X k))"
    and Ld: "distinct Ld" "set Ld \<subseteq> fst ` set a \<union> fst ` set b"
        "set Ld \<inter> (fst ` set b \<inter> fst ` set a) = {}"
    and Lc: "distinct Lc" "set Lc = fst ` set b \<inter> fst ` set a"
  shows "set (fold (\<lambda>k acc. dict_update acc (X k)) Lc
               (fold (\<lambda>k acc. dict_set acc (key_path p k) (g k)) Ld [])) =
         (\<lambda>k. (key_path p k, g k)) ` set Ld \<union> (\<Union>k \<in> fst ` set b \<inter> fst ` set a. set (X k))"
proof -
  have pk: "\<And>k. k \<in> fst ` set a \<union> fst ` set b \<Longrightarrow> plain_key k"
    using plain_key_of_dict pl(1,2) by blast
  have pkd: "plain_key k" if "k \<in> set Ld" for k
  proof -
    from that Ld(2) have "k \<in> fst ` set a \<union> fst ` set b" by (rule subsetD[rotated])
    then show ?thesis by (rule pk)
  qed
  have pkc: "plain_key k" if "k \<in> set Lc" for k
  proof -
    from that have "k \<in> fst ` set b" unfolding Lc(2) by (rule IntD1)
    then have "k \<in> fst ` set a \<union> fst ` set b" by (rule UnI2)
    then show ?thesis by (rule pk)
  qed
  have below_sub: "\<And>k q. k \<in> set Lc \<Longrightarrow> q \<in> fst ` set (X k) \<Longrightarrow> below (key_path p k) q"
  proof -
    fix k q assume k: "k \<in> set Lc" and q: "q \<in> fst ` set (X k)"
    from k Lc(2) have kk: "k \<in> fst ` set b" "k \<in> fst ` set a" by simp_all
    from sub[OF kk] q
    have "q \<in> diff_keys (diff_of so (lookup b k) (lookup a k) (key_path p k))"
      by blast
    then show "below (key_path p k) q" by (rule sub_below_dict[OF pl kk])
  qed
  have inj: "inj_on (key_path p) (set Ld)"
  proof (rule inj_onI)
    fix x y assume "x \<in> set Ld" "y \<in> set Ld" and eq: "key_path p x = key_path p y"
    then have "plain_key x" "plain_key y" by (simp_all add: pkd)
    then show "x = y" using eq by (rule key_path_inj[OF pl(3)])
  qed
  have direct: "set (fold (\<lambda>k acc. dict_set acc (key_path p k) (g k)) Ld []) =
      (\<lambda>k. (key_path p k, g k)) ` set Ld"
    using set_fold_dict_set_fresh[OF Ld(1) inj, of "[]" g] by simp
  have direct_keys: "fst ` set (fold (\<lambda>k acc. dict_set acc (key_path p k) (g k)) Ld []) =
      key_path p ` set Ld"
    by (simp add: keys_fold_dict_set)
  have "set (fold (\<lambda>k acc. dict_update acc (X k)) Lc
               (fold (\<lambda>k acc. dict_set acc (key_path p k) (g k)) Ld [])) =
        set (fold (\<lambda>k acc. dict_set acc (key_path p k) (g k)) Ld []) \<union> (\<Union>k\<in>set Lc. set (X k))"
  proof (rule set_fold_dict_update_fresh[OF Lc(1)])
    show "\<And>x. x \<in> set Lc \<Longrightarrow> distinct (map fst (X x))" by (rule dist)
    show "\<And>x. x \<in> set Lc \<Longrightarrow>
        fst ` set (X x) \<inter> fst ` set (fold (\<lambda>k acc. dict_set acc (key_path p k) (g k)) Ld []) = {}"
    proof -
      fix x assume x: "x \<in> set Lc"
      show "fst ` set (X x) \<inter> fst ` set (fold (\<lambda>k acc. dict_set acc (key_path p k) (g k)) Ld []) = {}"
      proof (rule ccontr)
        assume "\<not> ?thesis"
        then obtain q k where q: "q \<in> fst ` set (X x)" and k: "k \<in> set Ld" "q = key_path p k"
          unfolding direct_keys by blast
        from below_sub[OF x q] have "below (key_path p x) q" .
        moreover have "below (key_path p k) q" using k(2) by simp
        moreover have "plain_key x" "plain_key k" using pkc[OF x] pkd[OF k(1)] by simp_all
        ultimately have "x = k" using key_siblings[OF _ _ pl(3), of x k q] by simp
        with x k(1) Lc(2) Ld(3) show False by auto
      qed
    qed
    show "\<And>x y. x \<in> set Lc \<Longrightarrow> y \<in> set Lc \<Longrightarrow> x \<noteq> y \<Longrightarrow> fst ` set (X x) \<inter> fst ` set (X y) = {}"
    proof -
      fix x y assume xy: "x \<in> set Lc" "y \<in> set Lc" "x \<noteq> y"
      show "fst ` set (X x) \<inter> fst ` set (X y) = {}"
      proof (rule ccontr)
        assume "\<not> ?thesis"
        then obtain q where q: "q \<in> fst ` set (X x)" "q \<in> fst ` set (X y)" by blast
        from below_sub[OF xy(1) q(1)] below_sub[OF xy(2) q(2)]
        have "below (key_path p x) q" "below (key_path p y) q" .
        moreover have "plain_key x" "plain_key y" using pkc[OF xy(1)] pkc[OF xy(2)] by simp_all
        ultimately have "x = y" using key_siblings[OF _ _ pl(3), of x y q] by simp
        with xy(3) show False by simp
      qed
    qed
  qed
  then show ?thesis by (simp add: direct Lc(2))
qed

lemma entries_merge_list:
  fixes X :: "nat \<Rightarrow> (string \<times> 'v) list"
  assumes pl: "plain_keys (JList b)" "plain_keys (JList a)" "good_path p"
    and sub: "\<And>i. i < length b \<Longrightarrow> i < length a \<Longrightarrow>
        fst ` set (X i) \<subseteq> diff_keys (diff_of so (b ! i) (a ! i) (index_path p i))"
    and dist: "\<And>i. distinct (map fst (X i))"
    and lo: "min (length b) (length a) \<le> lo"
  shows "set (fold (\<lambda>i acc. dict_set acc (py_strip_dots (index_path p i)) (g i)) [lo..<hi]
               (fold (\<lambda>i acc. dict_update acc (X i)) [0..<min (length b) (length a)] [])) =
         (\<Union>i \<in> {..<min (length b) (length a)}. set (X i)) \<union>
         (\<lambda>i. (index_path p i, g i)) ` {lo..<hi}"
proof -
  let ?m = "min (length b) (length a)"
  have strip: "\<And>i. py_strip_dots (index_path p i) = index_path p i"
    using good_index_path(3)[OF pl(3)] .
  have below_sub: "\<And>i q. i < ?m \<Longrightarrow> q \<in> fst ` set (X i) \<Longrightarrow> below (index_path p i) q"
  proof -
    fix i q assume i: "i < ?m" and q: "q \<in> fst ` set (X i)"
    from i have il: "i < length b" "i < length a" by simp_all
    from sub[OF il] q
    have "q \<in> diff_keys (diff_of so (b ! i) (a ! i) (index_path p i))" by blast
    then show "below (index_path p i) q" by (rule sub_below_list[OF pl il])
  qed
  have merged: "set (fold (\<lambda>i acc. dict_update acc (X i)) [0..<?m] []) = (\<Union>i \<in> {..<?m}. set (X i))"
  proof -
    have "set (fold (\<lambda>i acc. dict_update acc (X i)) [0..<?m] []) =
        set [] \<union> (\<Union>i\<in>set [0..<?m]. set (X i))"
    proof (rule set_fold_dict_update_fresh)
      show "distinct [0..<?m]" by simp
      show "\<And>x. x \<in> set [0..<?m] \<Longrightarrow> distinct (map fst (X x))" by (rule dist)
      show "\<And>x. x \<in> set [0..<?m] \<Longrightarrow> fst ` set (X x) \<inter> fst ` set [] = {}" by simp
      show "\<And>x y. x \<in> set [0..<?m] \<Longrightarrow> y \<in> set [0..<?m] \<Longrightarrow> x \<noteq> y \<Longrightarrow>
          fst ` set (X x) \<inter> fst ` set (X y) = {}"
      proof -
        fix x y assume xy: "x \<in> set [0..<?m]" "y \<in> set [0..<?m]" "x \<noteq> y"
        show "fst ` set (X x) \<inter> fst ` set (X y) = {}"
        proof (rule ccontr)
          assume "\<not> ?thesis"
          then obtain q where q: "q \<in> fst ` set (X x)" "q \<in> fst ` set (X y)" by blast
          from xy have "x < ?m" "y < ?m" by auto
          from below_sub[OF this(1) q(1)] below_sub[OF this(2) q(2)]
          have "x = y" by (rule index_siblings)
          with xy(3) show False by simp
        qed
      qed
    qed
    then show ?thesis by (simp add: atLeast0LessThan)
  qed
  have inj: "inj_on (index_path p) (set [lo..<hi])"
  proof (rule inj_onI)
    fix x y assume "index_path p x = index_path p y"
    then have "below (index_path p y) (index_path p x)" by simp
    with below_refl[of "index_path p x"] show "x = y" by (rule index_siblings)
  qed
  have fresh: "index_path p ` set [lo..<hi] \<inter>
      fst ` set (fold (\<lambda>i acc. dict_update acc (X i)) [0..<?m] []) = {}"
  proof (rule ccontr)
    assume "\<not> ?thesis"
    then obtain i q where i: "i \<in> set [lo..<hi]" "q = index_path p i"
      and q: "q \<in> fst ` set (fold (\<lambda>i acc. dict_update acc (X i)) [0..<?m] [])" by blast
    from q have "q \<in> (\<Union>x\<in>set [0..<?m]. fst ` set (X x))"
      by (simp add: keys_fold_dict_update)
    then obtain j where "j \<in> set [0..<?m]" and j2: "q \<in> fst ` set (X j)" by blast
    then have j: "j < ?m" "q \<in> fst ` set (X j)" by simp_all
    from below_sub[OF j] have "below (index_path p j) q" .
    moreover have "below (index_path p i) q" using i(2) by simp
    ultimately have "j = i" by (rule index_siblings)
    with i(1) j(1) lo show False by simp
  qed
  have "set (fold (\<lambda>i acc. dict_set acc (index_path p i) (g i)) [lo..<hi]
               (fold (\<lambda>i acc. dict_update acc (X i)) [0..<?m] [])) =
        set (fold (\<lambda>i acc. dict_update acc (X i)) [0..<?m] []) \<union>
        (\<lambda>i. (index_path p i, g i)) ` set [lo..<hi]"
    by (rule set_fold_dict_set_fresh[OF _ inj fresh]) simp
  then show ?thesis by (simp only: strip merged set_upt)
qed

lemma entries_dict:
  assumes pl: "plain_keys (JDict b)" "plain_keys (JDict a)" "good_path p"
  shows "set (added (diff_of so (JDict b) (JDict a) p)) =
           (\<lambda>k. (key_path p k, lookup a k)) ` (fst ` set a - fst ` set b) \<union>
           (\<Union>k \<in> fst ` set b \<inter> fst ` set a.
              set (added (diff_of so (lookup b k) (lookup a k) (key_path p k))))"
    and "set (removed (diff_of so (JDict b) (JDict a) p)) =
           (\<lambda>k. (key_path p k, lookup b k)) ` (fst ` set b - fst ` set a) \<union>
           (\<Union>k \<in> fst ` set b \<inter> fst ` set a.
              set (removed (diff_of so (lookup b k) (lookup a k) (key_path p k))))"
    and "set (changed (diff_of so (JDict b) (JDict a) p)) =
           (\<Union>k \<in> fst ` set b \<inter> fst ` set a.
              set (changed (diff_of so (lookup b k) (lookup a k) (key_path p k))))"
proof -
  let ?Lc = "iterate so (map fst b) (map fst a) [k \<leftarrow> map fst b. k \<in> set (map fst a)]"
  let ?La = "iterate so (map fst b) (map fst a) [k \<leftarrow> map fst a. k \<notin> set (map fst b)]"
  let ?Lr = "iterate so (map fst b) (map fst a) [k \<leftarrow> map fst b. k \<notin> set (map fst a)]"
  let ?sub = "\<lambda>k. diff_of so (lookup b k) (lookup a k) (key_path p k)"
  have Lc: "distinct ?Lc" "set ?Lc = fst ` set b \<inter> fst ` set a" by auto
  have La: "distinct ?La" "set ?La \<subseteq> fst ` set a \<union> fst ` set b"
    "set ?La \<inter> (fst ` set b \<inter> fst ` set a) = {}" by auto
  have La_set: "set ?La = fst ` set a - fst ` set b" by auto
  have Lr: "distinct ?Lr" "set ?Lr \<subseteq> fst ` set a \<union> fst ` set b"
    "set ?Lr \<inter> (fst ` set b \<inter> fst ` set a) = {}" by auto
  have Lr_set: "set ?Lr = fst ` set b - fst ` set a" by auto
  have Ln: "distinct ([]::string list)" "set ([]::string list) \<subseteq> fst ` set a \<union> fst ` set b"
    "set ([]::string list) \<inter> (fst ` set b \<inter> fst ` set a) = {}" by auto
  have "set (fold (\<lambda>k acc. dict_update acc (added (?sub k))) ?Lc
               (fold (\<lambda>k acc. dict_set acc (key_path p k) (lookup a k)) ?La [])) =
        (\<lambda>k. (key_path p k, lookup a k)) ` set ?La \<union>
        (\<Union>k \<in> fst ` set b \<inter> fst ` set a. set (added (?sub k)))"
    by (rule entries_merge_dict[where so=so, OF pl _ _ La Lc]) (auto simp: diff_keys_def distinct_fields)
  then show "set (added (diff_of so (JDict b) (JDict a) p)) =
           (\<lambda>k. (key_path p k, lookup a k)) ` (fst ` set a - fst ` set b) \<union>
           (\<Union>k \<in> fst ` set b \<inter> fst ` set a. set (added (?sub k)))"
    by (simp only: diff_of_dict_fields La_set differences.simps)
  have "set (fold (\<lambda>k acc. dict_update acc (removed (?sub k))) ?Lc
               (fold (\<lambda>k acc. dict_set acc (key_path p k) (lookup b k)) ?Lr [])) =
        (\<lambda>k. (key_path p k, lookup b k)) ` set ?Lr \<union>
        (\<Union>k \<in> fst ` set b \<inter> fst ` set a. set (removed (?sub k)))"
    by (rule entries_merge_dict[where so=so, OF pl _ _ Lr Lc]) (auto simp: diff_keys_def distinct_fields)
  then show "set (removed (diff_of so (JDict b) (JDict a) p)) =
           (\<lambda>k. (key_path p k, lookup b k)) ` (fst ` set b - fst ` set a) \<union>
           (\<Union>k \<in> fst ` set b \<inter> fst ` set a. set (removed (?sub k)))"
    by (simp only: diff_of_dict_fields Lr_set differences.simps)
  have "set (fold (\<lambda>k acc. dict_update acc (changed (?sub k))) ?Lc
               (fold (\<lambda>k acc. dict_set acc (key_path p k) (undefined k)) [] [])) =
        (\<lambda>k. (key_path p k, undefined k)) ` set [] \<union>
        (\<Union>k \<in> fst ` set b \<inter> fst ` set a. set (changed (?sub k)))"
    by (rule entries_merge_dict[where so=so, OF pl _ _ Ln Lc]) (auto simp: diff_keys_def distinct_fields)
  then show "set (changed (diff_of so (JDict b) (JDict a) p)) =
           (\<Union>k \<in> fst ` set b \<inter> fst ` set a. set (changed (?sub k)))"
    by (simp add: diff_of_dict_fields del: set_iterate set_filter)
qed

lemma entries_list:
  assumes pl: "plain_keys (JList b)" "plain_keys (JList a)" "good_path p"
  shows "set (added (diff_of so (JList b) (JList a) p)) =
           (\<Union>i \<in> {..<min (length b) (length a)}.
              set (added (diff_of so (b ! i) (a ! i) (index_path p i)))) \<union>
           (\<lambda>i. (index_path p i, a ! i)) ` {length b..<length a}"
    and "set (removed (diff_of so (JList b) (JList a) p)) =
           (\<Union>i \<in> {..<min (length b) (length a)}.
              set (removed (diff_of so (b ! i) (a ! i) (index_path p i)))) \<union>
           (\<lambda>i. (index_path p i, b ! i)) ` {length a..<length b}"
    and "set (changed (diff_of so (JList b) (JList a) p)) =
           (\<Union>i \<in> {..<min (length b) (length a)}.
              set (changed (diff_of so (b ! i) (a ! i) (index_path p i))))"
proof -
  let ?sub = "\<lambda>i. diff_of so (b ! i) (a ! i) (index_path p i)"
  let ?m = "min (length b) (length a)"
  have "set (fold (\<lambda>i acc. dict_set acc (py_strip_dots (index_path p i)) (a ! i))
               [length b..<length a]
               (fold (\<lambda>i acc. dict_update acc (added (?sub i))) [0..<?m] [])) =
        (\<Union>i \<in> {..<?m}. set (added (?sub i))) \<union>
        (\<lambda>i. (index_path p i, a ! i)) ` {length b..<length a}"
    by (rule entries_merge_list[where so=so, OF pl]) (auto simp: diff_keys_def distinct_fields)
  then show "set (added (diff_of so (JList b) (JList a) p)) =
           (\<Union>i \<in> {..<?m}. set (added (?sub i))) \<union>
           (\<lambda>i. (index_path p i, a ! i)) ` {length b..<length a}"
    by (simp only: diff_of_list_fields differences.simps)
  have "set (fold (\<lambda>i acc. dict_set acc (py_strip_dots (index_path p i)) (b ! i))
               [length a..<length b]
               (fold (\<lambda>i acc. dict_update acc (removed (?sub i))) [0..<?m] [])) =
        (\<Union>i \<in> {..<?m}. set (removed (?sub i))) \<union>
        (\<lambda>i. (index_path p i, b ! i)) ` {length a..<length b}"
    by (rule entries_merge_list[where so=so, OF pl]) (auto simp: diff_keys_def distinct_fields)
  then show "set (removed (diff_of so (JList b) (JList a) p)) =
           (\<Union>i \<in> {..<?m}. set (removed (?sub i))) \<union>
           (\<lambda>i. (index_path p i, b ! i)) ` {length a..<length b}"
    by (simp only: diff_of_list_fields differences.simps)
  have "set (fold (\<lambda>i acc. dict_set acc (py_strip_dots (index_path p i)) (undefined i))
               [length a..<length a]
               (fold (\<lambda>i acc. dict_update acc (changed (?sub i))) [0..<?m] [])) =
        (\<Union>i \<in> {..<?m}. set (changed (?sub i))) \<union>
        (\<lambda>i. (index_path p i, undefined i)) ` {length a..<length a}"
    by (rule entries_merge_list[where so=so, OF pl]) (auto simp: diff_keys_def distinct_fields)
  then show "set (changed (diff_of so (JList b) (JList a) p)) =
           (\<Union>i \<in> {..<?m}. set (changed (?sub i)))"
    by (simp add: diff_of_list_fields)
qed

lemma py_eq_sym_other:
  "\<not> (is_dict before \<and> is_dict after) \<Longrightarrow> \<not> (is_list before \<and> is_list after) \<Longrightarrow>
   py_eq before after = py_eq after before"
  by (cases before; cases after) (auto simp: float_eq_sym)

lemma mirrored_plain:
  "plain_keys before \<Longrightarrow> plain_keys after \<Longrightarrow> good_path p \<Longrightarrow>
   mirrored (diff_of so before after p) (diff_of so' after before p)"
proof (induction so before after p rule: diff_of_cases_induct)
  case (dict so b a p)
  have sub: "mirrored (diff_of so (lookup b k) (lookup a k) (key_path p k))
      (diff_of so' (lookup a k) (lookup b k) (key_path p k))"
    if "k \<in> fst ` set b \<inter> fst ` set a" for k
  proof -
    from that have k: "k \<in> fst ` set b" "k \<in> fst ` set a" by simp_all
    show ?thesis
      using dict.IH[of k] k plain_lookup(2)[OF dict.prems(1) k(1)]
        plain_lookup(2)[OF dict.prems(2) k(2)]
        good_key_path(1)[OF plain_key_of_dict[OF dict.prems(1) k(1)] dict.prems(3)]
      by simp
  qed
  have comm: "fst ` set a \<inter> fst ` set b = fst ` set b \<inter> fst ` set a" by (rule Int_commute)
  show ?case
    unfolding mirrored_def
      entries_dict[OF dict.prems(1,2,3)] entries_dict[OF dict.prems(2,1,3)] comm
    using sub by (auto simp: mirrored_def image_Un image_UN image_image)
next
  case (list so b a p)
  have sub: "mirrored (diff_of so (b ! i) (a ! i) (index_path p i))
      (diff_of so' (a ! i) (b ! i) (index_path p i))"
    if "i < min (length b) (length a)" for i
  proof -
    from that have i: "i < length b" "i < length a" by simp_all
    show ?thesis
      using list.IH[OF i plain_list_nth[OF list.prems(1) i(1)]
          plain_list_nth[OF list.prems(2) i(2)] good_index_path(1)[OF list.prems(3)]] .
  qed
  have comm: "min (length a) (length b) = min (length b) (length a)" by (rule min.commute)
  show ?case
    unfolding mirrored_def
      entries_list[OF list.prems(1,2,3)] entries_list[OF list.prems(2,1,3)] comm
    using sub by (auto simp: mirrored_def image_Un image_UN image_image simp del: min_less_iff_conj)
next
  case (other so before after p)
  from other(1,2) have sw: "\<not> (is_dict after \<and> is_dict before)" "\<not> (is_list after \<and> is_list before)"
    by auto
  show ?case
    by (simp add: mirrored_def diff_of_other[OF other(1,2)] diff_of_other[OF sw]
        py_eq_sym_other[OF other(1,2)] no_differences_def)
qed

lemma diff_of_mirrored:
  assumes "plain_keys before" and "plain_keys after"
  shows "map_of (added (diff_of so before after [])) =
           map_of (removed (diff_of so' after before [])) \<and>
         map_of (removed (diff_of so before after [])) =
           map_of (added (diff_of so' after before [])) \<and>
         map_of (changed (diff_of so before after [])) =
           map_option prod.swap \<circ> map_of (changed (diff_of so' after before []))"
proof -
  have "good_path []" by (simp add: good_path_def)
  from mirrored_plain[OF assms this, of so so']
  have m: "set (added (diff_of so before after [])) =
             set (removed (diff_of so' after before []))"
    "set (removed (diff_of so before after [])) =
             set (added (diff_of so' after before []))"
    "set (changed (diff_of so before after [])) =
             apsnd prod.swap ` set (changed (diff_of so' after before []))"
    by (simp_all add: mirrored_def)
  have 1: "map_of (added (diff_of so before after [])) =
           map_of (removed (diff_of so' after before []))"
    using m(1) by (simp add: map_of_inject_set distinct_fields)
  have 2: "map_of (removed (diff_of so before after [])) =
           map_of (added (diff_of so' after before []))"
    using m(2) by (simp add: map_of_inject_set distinct_fields)
  have "map_of (changed (diff_of so before after [])) =
      map_of (map (apsnd prod.swap) (changed (diff_of so' after before [])))"
    using m(3) by (subst map_of_inject_set) (simp_all add: distinct_fields comp_def)
  also have "\<dots> = map_option prod.swap \<circ> map_of (changed (diff_of so' after before []))"
    by (simp add: apsnd_def map_prod_def map_of_map)
  finally show ?thesis using 1 2 by simp
qed

lemma set_dict_set_subset: "set (dict_set d k v) \<subseteq> insert (k, v) (set d)"
  unfolding dict_set_def by (induction d) auto

lemma set_fold_dict_set_subset:
  "set (fold (\<lambda>x acc. dict_set acc (f x) (g x)) xs acc0) \<subseteq>
     set acc0 \<union> (\<lambda>x. (f x, g x)) ` set xs"
proof (induction xs arbitrary: acc0)
  case Nil
  then show ?case by simp
next
  case (Cons x xs)
  from Cons.IH[of "dict_set acc0 (f x) (g x)"] set_dict_set_subset[of acc0 "f x" "g x"]
  show ?case by auto
qed

lemma diff_from_empty:
  "removed (diff_of so (JDict []) (JDict kvs) p) = []"
  "changed (diff_of so (JDict []) (JDict kvs) p) = []"
  "fst ` set (added (diff_of so (JDict []) (JDict kvs) p)) = key_path p ` fst ` set kvs"
  "set (added (diff_of so (JDict []) (JDict kvs) p)) \<subseteq>
     (\<lambda>k. (key_path p k, lookup kvs k)) ` fst ` set kvs"
proof -
  have f: "diff_of so (JDict []) (JDict kvs) p =
      \<lparr>added = fold (\<lambda>k acc. dict_set acc (key_path p k) (lookup kvs k))
                 (iterate so [] (map fst kvs) (map fst kvs)) [],
       removed = [], changed = []\<rparr>"
    by (simp add: diff_of_dict_fields)
  show "removed (diff_of so (JDict []) (JDict kvs) p) = []"
    and "changed (diff_of so (JDict []) (JDict kvs) p) = []"
    by (simp_all add: f)
  show "fst ` set (added (diff_of so (JDict []) (JDict kvs) p)) = key_path p ` fst ` set kvs"
    by (simp add: f keys_fold_dict_set)
  show "set (added (diff_of so (JDict []) (JDict kvs) p)) \<subseteq>
     (\<lambda>k. (key_path p k, lookup kvs k)) ` fst ` set kvs"
    using set_fold_dict_set_subset[of "key_path p" "lookup kvs"
        "iterate so [] (map fst kvs) (map fst kvs)" "[]"]
    by (simp add: f)
qed

lemma diff_to_empty:
  "added (diff_of so (JDict kvs) (JDict []) p) = []"
  "changed (diff_of so (JDict kvs) (JDict []) p) = []"
  "fst ` set (removed (diff_of so (JDict kvs) (JDict []) p)) = key_path p ` fst ` set kvs"
  "set (removed (diff_of so (JDict kvs) (JDict []) p)) \<subseteq>
     (\<lambda>k. (key_path p k, lookup kvs k)) ` fst ` set kvs"
proof -
  have f: "diff_of so (JDict kvs) (JDict []) p =
      \<lparr>added = [],
       removed = fold (\<lambda>k acc. dict_set acc (key_path p k) (lookup kvs k))
                 (iterate so (map fst kvs) [] (map fst kvs)) [],
       changed = []\<rparr>"
    by (simp add: diff_of_dict_fields)
  show "added (diff_of so (JDict kvs) (JDict []) p) = []"
    and "changed (diff_of so (JDict kvs) (JDict []) p) = []"
    by (simp_all add: f)
  show "fst ` set (removed (diff_of so (JDict kvs) (JDict []) p)) = key_path p ` fst ` set kvs"
    by (simp add: f keys_fold_dict_set)
  show "set (removed (diff_of so (JDict kvs) (JDict []) p)) \<subseteq>
     (\<lambda>k. (key_path p k, lookup kvs k)) ` fst ` set kvs"
    using set_fold_dict_set_subset[of "key_path p" "lookup kvs"
        "iterate so (map fst kvs) [] (map fst kvs)" "[]"]
    by (simp add: f)
qed

lemma added_empty_iff: "added (diff_of so (JDict []) (JDict kvs) p) = [] \<longleftrightarrow> kvs = []"
  using diff_from_empty(3)[of so kvs p] by (metis image_is_empty set_empty)

lemma removed_empty_iff: "removed (diff_of so (JDict kvs) (JDict []) p) = [] \<longleftrightarrow> kvs = []"
  using diff_to_empty(3)[of so kvs p] by (metis image_is_empty set_empty)

lemma entries_from_dict:
  "(\<lambda>k. (key_path p k, lookup kvs k)) ` fst ` set kvs \<subseteq> (\<lambda>(k, v). (key_path p k, v)) ` set kvs"
proof
  fix e assume "e \<in> (\<lambda>k. (key_path p k, lookup kvs k)) ` fst ` set kvs"
  then obtain k where k: "k \<in> fst ` set kvs" and e: "e = (key_path p k, lookup kvs k)" by blast
  from k have "(k, lookup kvs k) \<in> set kvs" by (intro lookup_in) simp
  then show "e \<in> (\<lambda>(k, v). (key_path p k, v)) ` set kvs"
    unfolding e by (rule rev_image_eqI) simp
qed

section \<open>The resource that \<^verbatim>\<open>change_details\<close> returns\<close>

lemma change_details_control:
  assumes "action0 \<in> set control_actions"
    and "get_the_differences so (py_get_default (ec_before change) (JDict []))
           (py_get_default (ec_after change) (JDict [])) = Inr diff"
  shows "change_details so change (action0 # rest) =
     Inr \<lparr>res_name = py_get (ec_name change),
          res_type = py_get (ec_type change),
          res_actions = py_get_default (ec_actions change) [],
          res_before =
            (if py_truthy (py_get_default (ec_before change) (JDict []))
             then py_get_default (ec_before change) (JDict []) else JDict []),
          res_after =
            (if py_truthy (py_get_default (ec_after change) (JDict []))
             then py_get_default (ec_after change) (JDict []) else JDict []),
          res_dependencies = py_get_default (ec_dependencies change) (JDict []),
          res_differences = (case diff of None \<Rightarrow> PyNone | Some d \<Rightarrow> DifferenceSet d)\<rparr>"
  unfolding change_details_def Let_def using assms by simp

lemma change_details_other:
  assumes "action0 \<notin> set control_actions"
  shows "change_details so change (action0 # rest) =
     Inr \<lparr>res_name = py_get (ec_name change),
          res_type = py_get (ec_type change),
          res_actions = py_get_default (ec_actions change) [],
          res_before = JDict [],
          res_after = JDict [],
          res_dependencies = py_get_default (ec_dependencies change) (JDict []),
          res_differences = EmptyDict\<rparr>"
  unfolding change_details_def Let_def using assms by simp

lemma change_details_Cons: "\<exists>r. change_details so change (a0 # rest) = Inr r"
proof (cases "a0 \<in> set control_actions")
  case True
  obtain diff where "get_the_differences so (py_get_default (ec_before change) (JDict []))
           (py_get_default (ec_after change) (JDict [])) = Inr diff"
    using get_the_differences_total by blast
  from change_details_control[OF True this] show ?thesis by blast
next
  case False
  from change_details_other[OF this] show ?thesis by blast
qed

lemma change_details_member:
  "tok \<in> set action \<Longrightarrow> \<exists>r. change_details so change action = Inr r"
  by (cases action) (auto simp: change_details_Cons)

lemma change_details_no_op_first:
  "change_details so change (''no-op'' # rest) =
     Inr \<lparr>res_name = py_get (ec_name change),
          res_type = py_get (ec_type change),
          res_actions = py_get_default (ec_actions change) [],
          res_before = JDict [],
          res_after = JDict [],
          res_dependencies = py_get_default (ec_dependencies change) (JDict []),
          res_differences = EmptyDict\<rparr>"
  by (rule change_details_other) (simp add: control_actions_def)

section \<open>Properties of the diff engine\<close>

text \<open>
  Claim C1, as the code has it. When the \<^verbatim>\<open>before\<close> key (respectively the \<^verbatim>\<open>after\<close>
  key) of an entry with a control action is missing, \<^verbatim>\<open>change_details\<close> returns a resource
  whose \<^verbatim>\<open>before\<close> (respectively \<^verbatim>\<open>after\<close>) is the empty dict and whose \<^verbatim>\<open>differences\<close>
  is the result of \<^verbatim>\<open>get_the_differences\<close> on the empty dict and the state that is there.
  The diff of the empty dict against a dict has no \<open>removed\<close> and no \<open>changed\<close> entry,
  and its \<open>added\<close> mapping has one path for each top-level key of the dict (the key,
  stripped of leading and trailing dots), holding the whole value of a key of that path:
  nested values are stored whole, their leaf paths are not enumerated. The same holds with
  \<open>added\<close> and \<open>removed\<close> exchanged when the dict is diffed against the empty dict.
\<close>

theorem absent_state_diffed_as_empty_dict:
  assumes "action0 \<in> set control_actions" and "ec_before new = None"
    and "action1 \<in> set control_actions" and "ec_after gone = None"
  shows "(\<exists>r diff. change_details so new (action0 # rest) = Inr r \<and>
            get_the_differences so (JDict []) (py_get_default (ec_after new) (JDict [])) = Inr diff \<and>
            res_before r = JDict [] \<and>
            res_differences r = (case diff of None \<Rightarrow> PyNone | Some d \<Rightarrow> DifferenceSet d)) \<and>
         (\<exists>r diff. change_details so gone (action1 # rest') = Inr r \<and>
            get_the_differences so (py_get_default (ec_before gone) (JDict [])) (JDict []) = Inr diff \<and>
            res_after r = JDict [] \<and>
            res_differences r = (case diff of None \<Rightarrow> PyNone | Some d \<Rightarrow> DifferenceSet d)) \<and>
         (\<exists>d. find_differences so (JDict []) (JDict kvs) [] = Inr d \<and>
            get_the_differences so (JDict []) (JDict kvs) = Inr (if kvs = [] then None else Some d) \<and>
            removed d = [] \<and> changed d = [] \<and>
            fst ` set (added d) = key_path [] ` fst ` set kvs \<and>
            set (added d) \<subseteq> (\<lambda>(k, v). (key_path [] k, v)) ` set kvs) \<and>
         (\<exists>d. find_differences so (JDict kvs) (JDict []) [] = Inr d \<and>
            get_the_differences so (JDict kvs) (JDict []) = Inr (if kvs = [] then None else Some d) \<and>
            added d = [] \<and> changed d = [] \<and>
            fst ` set (removed d) = key_path [] ` fst ` set kvs \<and>
            set (removed d) \<subseteq> (\<lambda>(k, v). (key_path [] k, v)) ` set kvs)"
proof -
  have b0: "py_get_default (ec_before new) (JDict []) = JDict []"
    using assms(2) by (simp add: py_get_default_def)
  obtain diff0 where diff0:
    "get_the_differences so (JDict []) (py_get_default (ec_after new) (JDict [])) = Inr diff0"
    using get_the_differences_total by blast
  then have "get_the_differences so (py_get_default (ec_before new) (JDict []))
           (py_get_default (ec_after new) (JDict [])) = Inr diff0"
    by (simp only: b0)
  from change_details_control[OF assms(1) this, of rest]
  have "\<exists>r. change_details so new (action0 # rest) = Inr r \<and> res_before r = JDict [] \<and>
     res_differences r = (case diff0 of None \<Rightarrow> PyNone | Some d \<Rightarrow> DifferenceSet d)"
    by (simp add: b0)
  with diff0 have new: "\<exists>r diff. change_details so new (action0 # rest) = Inr r \<and>
            get_the_differences so (JDict []) (py_get_default (ec_after new) (JDict [])) = Inr diff \<and>
            res_before r = JDict [] \<and>
            res_differences r = (case diff of None \<Rightarrow> PyNone | Some d \<Rightarrow> DifferenceSet d)"
    by blast
  have a0: "py_get_default (ec_after gone) (JDict []) = JDict []"
    using assms(4) by (simp add: py_get_default_def)
  obtain diff1 where diff1:
    "get_the_differences so (py_get_default (ec_before gone) (JDict [])) (JDict []) = Inr diff1"
    using get_the_differences_total by blast
  then have "get_the_differences so (py_get_default (ec_before gone) (JDict []))
           (py_get_default (ec_after gone) (JDict [])) = Inr diff1"
    by (simp only: a0)
  from change_details_control[OF assms(3) this, of rest']
  have "\<exists>r. change_details so gone (action1 # rest') = Inr r \<and> res_after r = JDict [] \<and>
     res_differences r = (case diff1 of None \<Rightarrow> PyNone | Some d \<Rightarrow> DifferenceSet d)"
    by (simp add: a0)
  with diff1 have gone: "\<exists>r diff. change_details so gone (action1 # rest') = Inr r \<and>
            get_the_differences so (py_get_default (ec_before gone) (JDict [])) (JDict []) = Inr diff \<and>
            res_after r = JDict [] \<and>
            res_differences r = (case diff of None \<Rightarrow> PyNone | Some d \<Rightarrow> DifferenceSet d)"
    by blast
  let ?da = "diff_of so (JDict []) (JDict kvs) []"
  have a1: "find_differences so (JDict []) (JDict kvs) [] = Inr ?da"
    by (rule find_differences_returns)
  have a2: "get_the_differences so (JDict []) (JDict kvs) = Inr (if kvs = [] then None else Some ?da)"
    by (simp add: get_the_differences_returns diff_from_empty(1,2) added_empty_iff)
  have a3: "set (added ?da) \<subseteq> (\<lambda>(k, v). (key_path [] k, v)) ` set kvs"
    by (rule order_trans[OF diff_from_empty(4) entries_from_dict])
  have a: "\<exists>d. find_differences so (JDict []) (JDict kvs) [] = Inr d \<and>
            get_the_differences so (JDict []) (JDict kvs) = Inr (if kvs = [] then None else Some d) \<and>
            removed d = [] \<and> changed d = [] \<and>
            fst ` set (added d) = key_path [] ` fst ` set kvs \<and>
            set (added d) \<subseteq> (\<lambda>(k, v). (key_path [] k, v)) ` set kvs"
    by (intro exI[of _ ?da] conjI a1 a2 a3 diff_from_empty(1,2,3))
  let ?dr = "diff_of so (JDict kvs) (JDict []) []"
  have r1: "find_differences so (JDict kvs) (JDict []) [] = Inr ?dr"
    by (rule find_differences_returns)
  have r2: "get_the_differences so (JDict kvs) (JDict []) = Inr (if kvs = [] then None else Some ?dr)"
    by (simp add: get_the_differences_returns diff_to_empty(1,2) removed_empty_iff)
  have r3: "set (removed ?dr) \<subseteq> (\<lambda>(k, v). (key_path [] k, v)) ` set kvs"
    by (rule order_trans[OF diff_to_empty(4) entries_from_dict])
  have r: "\<exists>d. find_differences so (JDict kvs) (JDict []) [] = Inr d \<and>
            get_the_differences so (JDict kvs) (JDict []) = Inr (if kvs = [] then None else Some d) \<and>
            added d = [] \<and> changed d = [] \<and>
            fst ` set (removed d) = key_path [] ` fst ` set kvs \<and>
            set (removed d) \<subseteq> (\<lambda>(k, v). (key_path [] k, v)) ` set kvs"
    by (intro exI[of _ ?dr] conjI r1 r2 r3 diff_to_empty(1,2,3))
  show ?thesis by (rule conjI[OF new conjI[OF gone conjI[OF a r]]])
qed

theorem absent_state_witness:
  "''create'' \<in> set control_actions \<and> ec_before new_entity = None \<and>
   ''delete'' \<in> set control_actions \<and> ec_after removed_entity = None \<and>
   (\<exists>r. change_details dict_order new_entity (''create'' # []) = Inr r \<and>
      res_before r = JDict [] \<and>
      res_differences r =
        DifferenceSet
          \<lparr>added = [(''tags'', JDict [(''env'', JStr ''prod'')])], removed = [], changed = []\<rparr>) \<and>
   (\<exists>r. change_details dict_order removed_entity (''delete'' # []) = Inr r \<and>
      res_after r = JDict [] \<and>
      res_differences r =
        DifferenceSet
          \<lparr>added = [], removed = [(''tags'', JDict [(''env'', JStr ''prod'')])], changed = []\<rparr>) \<and>
   (\<exists>d. find_differences dict_order (JDict [])
          (JDict [(''tags'', JDict [(''env'', JStr ''prod'')])]) [] = Inr d \<and>
        fst ` set (added d) = {''tags''}) \<and>
   (\<exists>d. find_differences dict_order
          (JDict [(''tags'', JDict [(''env'', JStr ''prod'')])]) (JDict []) [] = Inr d \<and>
        fst ` set (removed d) = {''tags''})"
proof -
  have h1: "''create'' \<in> set control_actions" by (simp add: control_actions_def)
  have h2: "ec_before new_entity = None" by (simp add: new_entity_def)
  have h3: "''delete'' \<in> set control_actions" by (simp add: control_actions_def)
  have h4: "ec_after removed_entity = None" by (simp add: removed_entity_def)
  have kp: "key_path [] ''tags'' = ''tags''" by code_simp
  have a: "py_get_default (ec_after new_entity) (JDict []) =
      JDict [(''tags'', JDict [(''env'', JStr ''prod'')])]"
    by (simp add: new_entity_def py_get_default_def)
  have b: "py_get_default (ec_before removed_entity) (JDict []) =
      JDict [(''tags'', JDict [(''env'', JStr ''prod'')])]"
    by (simp add: removed_entity_def py_get_default_def)
  have g1: "get_the_differences dict_order (JDict [])
       (JDict [(''tags'', JDict [(''env'', JStr ''prod'')])]) =
      Inr (Some \<lparr>added = [(''tags'', JDict [(''env'', JStr ''prod'')])], removed = [], changed = []\<rparr>)"
    by code_simp
  have g2: "get_the_differences dict_order
       (JDict [(''tags'', JDict [(''env'', JStr ''prod'')])]) (JDict []) =
      Inr (Some \<lparr>added = [], removed = [(''tags'', JDict [(''env'', JStr ''prod'')])], changed = []\<rparr>)"
    by code_simp
  note inst = absent_state_diffed_as_empty_dict[OF h1 h2 h3 h4, of dict_order "[]" "[]"
      "[(''tags'', JDict [(''env'', JStr ''prod'')])]", unfolded a b g1 g2]
  from inst have new: "\<exists>r. change_details dict_order new_entity (''create'' # []) = Inr r \<and>
      res_before r = JDict [] \<and>
      res_differences r =
        DifferenceSet
          \<lparr>added = [(''tags'', JDict [(''env'', JStr ''prod'')])], removed = [], changed = []\<rparr>"
    by auto
  from inst have gone: "\<exists>r. change_details dict_order removed_entity (''delete'' # []) = Inr r \<and>
      res_after r = JDict [] \<and>
      res_differences r =
        DifferenceSet
          \<lparr>added = [], removed = [(''tags'', JDict [(''env'', JStr ''prod'')])], changed = []\<rparr>"
    by auto
  from inst have ad: "\<exists>d. find_differences dict_order (JDict [])
          (JDict [(''tags'', JDict [(''env'', JStr ''prod'')])]) [] = Inr d \<and>
        fst ` set (added d) = {''tags''}"
    by (auto simp: kp)
  from inst have rm: "\<exists>d. find_differences dict_order
          (JDict [(''tags'', JDict [(''env'', JStr ''prod'')])]) (JDict []) [] = Inr d \<and>
        fst ` set (removed d) = {''tags''}"
    by (auto simp: kp)
  show ?thesis
    by (rule conjI[OF h1 conjI[OF h2 conjI[OF h3 conjI[OF h4 conjI[OF new conjI[OF gone conjI[OF ad rm]]]]]]])
qed

text \<open>
  Claim C1 as the specification states it fails: for a new entity whose state nests a dict
  under \<^verbatim>\<open>tags\<close>, the only entry of \<open>added\<close> is \<^verbatim>\<open>tags\<close> with the nested dict as its
  value; the leaf path \<^verbatim>\<open>tags.env\<close> is not a key.
\<close>

theorem absent_state_counterexample:
  "change_details dict_order new_entity [''create''] =
     Inr \<lparr>res_name = JStr ''web'',
          res_type = JStr ''aws_instance'',
          res_actions = [''create''],
          res_before = JDict [],
          res_after = JDict [(''tags'', JDict [(''env'', JStr ''prod'')])],
          res_dependencies = JDict [],
          res_differences =
            DifferenceSet
              \<lparr>added = [(''tags'', JDict [(''env'', JStr ''prod'')])],
               removed = [], changed = []\<rparr>\<rparr>"
  by code_simp

text \<open>
  Claim C4, as the code has it. When every key of the two values is plain,
  \<^verbatim>\<open>find_differences\<close> returns a result in which no path is a key of two of the three
  mappings, whatever the order in which the sets of keys are iterated.
\<close>

theorem paths_in_one_mapping:
  assumes "plain_keys before" and "plain_keys after"
  shows "\<exists>d. find_differences so before after [] = Inr d \<and>
           fst ` set (added d) \<inter> fst ` set (removed d) = {} \<and>
           fst ` set (added d) \<inter> fst ` set (changed d) = {} \<and>
           fst ` set (removed d) \<inter> fst ` set (changed d) = {}"
proof -
  have "good_path []" by (simp add: good_path_def)
  from paths_apart_plain[OF assms this, of so] show ?thesis
    by (simp add: paths_apart_def find_differences_returns)
qed

theorem paths_in_one_mapping_witness:
  "plain_keys plain_before \<and> plain_keys plain_after \<and>
   (\<exists>d. find_differences dict_order plain_before plain_after [] = Inr d \<and>
      fst ` set (added d) \<inter> fst ` set (removed d) = {} \<and>
      fst ` set (added d) \<inter> fst ` set (changed d) = {} \<and>
      fst ` set (removed d) \<inter> fst ` set (changed d) = {})"
proof -
  have h1: "plain_keys plain_before" by (simp add: plain_before_def plain_key_def)
  have h2: "plain_keys plain_after" by (simp add: plain_after_def plain_key_def)
  from paths_in_one_mapping[OF h1 h2, of dict_order] h1 h2 show ?thesis by simp
qed

text \<open>
  Claim C4 as the specification states it fails when a key holds a dot: the path
  \<^verbatim>\<open>a.b\<close> is a key of \<open>removed\<close> and of \<open>changed\<close>.
\<close>

theorem paths_in_one_mapping_counterexample:
  "find_differences dict_order dotted_before dotted_after [] =
     Inr \<lparr>added = [], removed = [(''a.b'', JInt 1)], changed = [(''a.b'', (JInt 2, JInt 3))]\<rparr>"
  by code_simp

text \<open>
  Claim C5, as the code has it. \<^verbatim>\<open>find_differences\<close> has no failure of its own: on every
  pair of values it returns a result and raises nothing, and two values that are not both
  dicts and not both lists, of whatever kind, are compared with \<^verbatim>\<open>!=\<close>: the result has one
  \<open>changed\<close> entry at the path when they differ and no entry when they are equal.
\<close>

theorem other_kinds_compared_as_scalars:
  "\<exists>d. find_differences so before after path = Inr d \<and>
       ((is_dict before \<and> is_dict after) \<or> (is_list before \<and> is_list after) \<or>
        d = (if py_eq before after then \<lparr>added = [], removed = [], changed = []\<rparr>
             else \<lparr>added = [], removed = [], changed = [(path, (before, after))]\<rparr>))"
proof (cases "(is_dict before \<and> is_dict after) \<or> (is_list before \<and> is_list after)")
  case True
  then show ?thesis by (auto simp: find_differences_returns)
next
  case False
  then have "\<not> (is_dict before \<and> is_dict after)" and "\<not> (is_list before \<and> is_list after)"
    by blast+
  from diff_of_other[OF this, of so path] show ?thesis
    by (simp add: find_differences_returns no_differences_def)
qed

theorem other_kinds_compared_as_scalars_witness:
  "\<exists>d. find_differences dict_order (JOther 0) (JStr ''x'') ''p'' = Inr d \<and>
       ((is_dict (JOther 0) \<and> is_dict (JStr ''x'')) \<or> (is_list (JOther 0) \<and> is_list (JStr ''x'')) \<or>
        d = (if py_eq (JOther 0) (JStr ''x'') then \<lparr>added = [], removed = [], changed = []\<rparr>
             else \<lparr>added = [], removed = [], changed = [(''p'', (JOther 0, JStr ''x''))]\<rparr>))"
  by (rule other_kinds_compared_as_scalars)

text \<open>
  Claim C5 as the specification states it fails: for two distinct objects that are neither
  dicts, lists nor JSON scalars the entry point returns a difference set with one
  \<open>changed\<close> entry; it does not fail.
\<close>

theorem other_kinds_counterexample:
  "get_the_differences dict_order (JOther 0) (JOther 1) =
     Inr (Some \<lparr>added = [], removed = [], changed = [([], (JOther 0, JOther 1))]\<rparr>)"
  by code_simp

text \<open>
  Claim C8, as the code has it. Diffing a value that is free of \<^verbatim>\<open>NaN\<close> against itself at
  the root path: \<^verbatim>\<open>get_the_differences\<close> returns \<^verbatim>\<open>None\<close>, whatever the order in which the
  sets of keys are iterated.
\<close>

theorem self_diff_is_absent:
  assumes "nan_free v"
  shows "get_the_differences so v v = Inr None"
  using assms by (simp add: get_the_differences_returns diff_of_same no_differences_def)

theorem self_diff_is_absent_witness:
  "nan_free float_state \<and> get_the_differences dict_order float_state float_state = Inr None"
proof -
  have h: "nan_free float_state" by (simp add: float_state_def)
  from self_diff_is_absent[OF h, of dict_order] h show ?thesis by simp
qed

text \<open>
  Claim C8 as the specification states it fails for a value that holds \<^verbatim>\<open>NaN\<close>:
  \<^verbatim>\<open>before != after\<close> is true of \<^verbatim>\<open>NaN\<close> and itself, and the diff of the state against
  itself has a \<open>changed\<close> entry at the path of the float.
\<close>

theorem self_diff_counterexample:
  "get_the_differences dict_order nan_state nan_state =
     Inr (Some \<lparr>added = [], removed = [],
                changed = [(''x'', (JFloat NaN, JFloat NaN))]\<rparr>)"
  by code_simp

text \<open>
  Claim C9, as the code has it. When every key of the two values is plain, the diff in one
  direction mirrors the diff in the other: both calls return, and as mappings \<open>added\<close> of
  one is \<open>removed\<close> of the other and conversely, and \<open>changed\<close> has the same paths with
  the two values of each entry exchanged. This holds whatever the orders in which the two
  calls iterate their sets of keys.
\<close>

theorem diff_mirrored_for_plain_keys:
  assumes "plain_keys before" and "plain_keys after"
  shows "\<exists>d d'. find_differences so before after [] = Inr d \<and>
           find_differences so' after before [] = Inr d' \<and>
           map_of (added d) = map_of (removed d') \<and>
           map_of (removed d) = map_of (added d') \<and>
           map_of (changed d) = map_option prod.swap \<circ> map_of (changed d')"
  using diff_of_mirrored[OF assms, of so so']
  by (simp add: find_differences_returns)

theorem diff_mirrored_for_plain_keys_witness:
  "plain_keys plain_before \<and> plain_keys plain_after \<and>
   (\<exists>d d'. find_differences dict_order plain_before plain_after [] = Inr d \<and>
      find_differences reversed_order plain_after plain_before [] = Inr d' \<and>
      map_of (added d) = map_of (removed d') \<and>
      map_of (removed d) = map_of (added d') \<and>
      map_of (changed d) = map_option prod.swap \<circ> map_of (changed d'))"
proof -
  have h1: "plain_keys plain_before" by (simp add: plain_before_def plain_key_def)
  have h2: "plain_keys plain_after" by (simp add: plain_after_def plain_key_def)
  from diff_mirrored_for_plain_keys[OF h1 h2, of dict_order reversed_order] h1 h2
  show ?thesis by simp
qed

text \<open>
  Claim C9 as the specification states it fails when keys hold dots: two recursive calls
  write the path \<^verbatim>\<open>a.b.c\<close> and the later one wins. With the common keys visited in the
  order of the first dict, \<open>added\<close> in one direction holds 2 at this path and \<open>removed\<close>
  in the other direction holds 1.
\<close>

theorem diff_mirrored_counterexample:
  "find_differences dict_order crossing_before crossing_after [] =
     Inr \<lparr>added = [(''a.b.c'', JInt 2)], removed = [], changed = []\<rparr> \<and>
   find_differences dict_order crossing_after crossing_before [] =
     Inr \<lparr>added = [], removed = [(''a.b.c'', JInt 1)], changed = []\<rparr>"
  by code_simp

section \<open>Properties of the classifier\<close>

lemma classify_change_counters:
  assumes "counters_match st"
  shows "\<exists>st'. classify_change so change st = Inr st' \<and> counters_match st'"
proof -
  obtain cd sm where st: "st = (cd, sm)" by (cases st)
  define action where "action = py_get_default (ec_actions change) []"
  show ?thesis
  proof (cases "action = []")
    case True
    then show ?thesis using assms
      by (simp add: classify_change_def action_def[symmetric] if_create_def if_update_def
          if_delete_def if_replace_def if_no_op_def bind_result_def st)
  next
    case False
    then obtain a0 rest where "action = a0 # rest" by (cases action) auto
    with change_details_Cons[of so change a0 rest]
    obtain r where r: "change_details so change action = Inr r" by auto
    show ?thesis using assms
      by (simp add: classify_change_def action_def[symmetric] if_create_def if_update_def
          if_delete_def if_replace_def if_no_op_def bind_result_def st r Let_def counters_match_def)
  qed
qed

lemma for_each_classify_counters:
  "counters_match st \<Longrightarrow>
     \<exists>st'. for_each (classify_change so) changes st = Inr st' \<and> counters_match st'"
proof (induction changes arbitrary: st)
  case Nil
  then show ?case by simp
next
  case (Cons change changes)
  from classify_change_counters[OF Cons.prems]
  obtain st1 where "classify_change so change st = Inr st1" "counters_match st1" by blast
  with Cons.IH[of st1] show ?case by simp
qed

text \<open>
  Claim C2, as the code has it. The plan section holds one entry whose actions are
  \<^verbatim>\<open>["no-op"]\<close>: \<^verbatim>\<open>analyse_plan\<close> returns the five lists \<^verbatim>\<open>create_and_delete\<close>, \<^verbatim>\<open>create\<close>,
  \<^verbatim>\<open>update\<close>, \<^verbatim>\<open>delete\<close>, \<^verbatim>\<open>replace\<close> empty and the list \<^verbatim>\<open>no_op\<close> with one restructured
  resource (empty \<^verbatim>\<open>before\<close> and \<^verbatim>\<open>after\<close>, \<^verbatim>\<open>differences\<close> the empty dict); the counter
  \<^verbatim>\<open>no_op\<close> is 1 and the four others are 0.
\<close>

theorem single_no_op_record:
  assumes "map_of plan type_of_change = Some [change]"
    and "ec_actions change = Some [''no-op'']"
  shows "analyse_plan so plan type_of_change =
     Inr (Some
       (\<lparr>cd_create_and_delete = [], cd_create = [], cd_update = [], cd_delete = [],
         cd_replace = [],
         cd_no_op = [\<lparr>res_name = py_get (ec_name change),
                     res_type = py_get (ec_type change),
                     res_actions = [''no-op''],
                     res_before = JDict [],
                     res_after = JDict [],
                     res_dependencies = py_get_default (ec_dependencies change) (JDict []),
                     res_differences = EmptyDict\<rparr>]\<rparr>,
        \<lparr>sum_create = 0, sum_update = 0, sum_delete = 0, sum_replace = 0, sum_no_op = 1\<rparr>))"
  using assms
  by (simp add: analyse_plan_def classify_change_def py_get_default_def if_create_def if_update_def
      if_delete_def if_replace_def if_no_op_def bind_result_def Let_def
      change_details_no_op_first initial_changes_dict_def initial_summary_def)

theorem single_no_op_record_witness:
  "map_of [(''resource_changes'', [example_change [''no-op'']])] ''resource_changes'' =
     Some [example_change [''no-op'']] \<and>
   ec_actions (example_change [''no-op'']) = Some [''no-op''] \<and>
   analyse_plan dict_order [(''resource_changes'', [example_change [''no-op'']])]
       ''resource_changes'' =
     Inr (Some
       (\<lparr>cd_create_and_delete = [], cd_create = [], cd_update = [], cd_delete = [],
         cd_replace = [],
         cd_no_op = [\<lparr>res_name = JStr ''web'',
                     res_type = JStr ''aws_instance'',
                     res_actions = [''no-op''],
                     res_before = JDict [],
                     res_after = JDict [],
                     res_dependencies = JDict [],
                     res_differences = EmptyDict\<rparr>]\<rparr>,
        \<lparr>sum_create = 0, sum_update = 0, sum_delete = 0, sum_replace = 0, sum_no_op = 1\<rparr>))"
proof -
  have h1: "map_of [(''resource_changes'', [example_change [''no-op'']])] ''resource_changes'' =
     Some [example_change [''no-op'']]" by simp
  have h2: "ec_actions (example_change [''no-op'']) = Some [''no-op'']"
    by (simp add: example_change_def)
  show ?thesis
    using single_no_op_record[OF h1 h2, of dict_order] h1 h2
    by (simp add: example_change_def py_get_def py_get_default_def)
qed

text \<open>
  Claim C2 as the specification states it fails: for the one \<^verbatim>\<open>["no-op"]\<close> entry the result
  is not the batch of six empty lists with the counter \<^verbatim>\<open>no_op\<close> at 1.
\<close>

theorem single_no_op_record_counterexample:
  "analyse_plan dict_order [(''resource_changes'', [example_change [''no-op'']])]
       ''resource_changes'' \<noteq>
     Inr (Some
       (\<lparr>cd_create_and_delete = [], cd_create = [], cd_update = [], cd_delete = [],
         cd_replace = [], cd_no_op = []\<rparr>,
        \<lparr>sum_create = 0, sum_update = 0, sum_delete = 0, sum_replace = 0, sum_no_op = 1\<rparr>))"
  by (simp add: analyse_plan_def classify_change_def py_get_default_def if_create_def if_update_def
      if_delete_def if_replace_def if_no_op_def bind_result_def Let_def example_change_def
      change_details_no_op_first initial_changes_dict_def initial_summary_def)

text \<open>
  Claim C3, as the code has it. \<^verbatim>\<open>change_details\<close> on a non-empty action list returns a
  resource whose \<^verbatim>\<open>differences\<close> field is: \<^verbatim>\<open>None\<close> when the first action is a control
  action and the three mappings of the diff are empty, the diff when one of them is not,
  and the empty dict \<^verbatim>\<open>{}\<close> (present, and empty) when the first action is not a control
  action; in the last case \<^verbatim>\<open>before\<close> and \<^verbatim>\<open>after\<close> are empty dicts. The diff is the value
  that \<^verbatim>\<open>find_differences\<close> returns on the two states at the root path.
\<close>

theorem differences_field_of_change_details:
  "\<exists>r d. change_details so change (action0 # rest) = Inr r \<and>
       find_differences so (py_get_default (ec_before change) (JDict []))
         (py_get_default (ec_after change) (JDict [])) [] = Inr d \<and>
       res_differences r =
         (if action0 \<in> set control_actions then
            (if added d = [] \<and> removed d = [] \<and> changed d = [] then PyNone
             else DifferenceSet d)
          else EmptyDict) \<and>
       (if action0 \<in> set control_actions then True
        else res_before r = JDict [] \<and> res_after r = JDict [])"
proof -
  let ?b = "py_get_default (ec_before change) (JDict [])"
  let ?a = "py_get_default (ec_after change) (JDict [])"
  let ?d = "diff_of so ?b ?a []"
  have d: "find_differences so ?b ?a [] = Inr ?d" by (rule find_differences_returns)
  show ?thesis
  proof (cases "action0 \<in> set control_actions")
    case True
    have "get_the_differences so ?b ?a =
        Inr (if added ?d \<noteq> [] \<or> removed ?d \<noteq> [] \<or> changed ?d \<noteq> [] then Some ?d else None)"
      by (rule get_the_differences_returns)
    from change_details_control[OF True this, of rest] d True show ?thesis
      by auto
  next
    case False
    from change_details_other[OF False, of so change rest] d False show ?thesis
      by auto
  qed
qed

theorem differences_field_of_change_details_witness:
  "\<exists>r d. change_details dict_order (example_change [''update'']) (''update'' # []) = Inr r \<and>
       find_differences dict_order
         (py_get_default (ec_before (example_change [''update''])) (JDict []))
         (py_get_default (ec_after (example_change [''update''])) (JDict [])) [] = Inr d \<and>
       res_differences r =
         (if ''update'' \<in> set control_actions then
            (if added d = [] \<and> removed d = [] \<and> changed d = [] then PyNone
             else DifferenceSet d)
          else EmptyDict) \<and>
       (if ''update'' \<in> set control_actions then True
        else res_before r = JDict [] \<and> res_after r = JDict [])"
  by (rule differences_field_of_change_details)

text \<open>
  Claim C3 as the specification states it fails: for an entry classified as non-control
  the \<^verbatim>\<open>differences\<close> field is the empty dict, not \<^verbatim>\<open>None\<close>.
\<close>

theorem differences_field_counterexample:
  "change_details dict_order (example_change [''no-op'']) [''no-op''] =
     Inr \<lparr>res_name = JStr ''web'',
          res_type = JStr ''aws_instance'',
          res_actions = [''no-op''],
          res_before = JDict [],
          res_after = JDict [],
          res_dependencies = JDict [],
          res_differences = EmptyDict\<rparr>"
  by (simp add: change_details_no_op_first example_change_def py_get_def py_get_default_def)

text \<open>
  Claim C6. An entry whose first action is \<^verbatim>\<open>no-op\<close> and whose later actions contain
  \<^verbatim>\<open>update\<close>: the loop body restructures it as a non-control entry (empty \<^verbatim>\<open>before\<close> and
  \<^verbatim>\<open>after\<close>, no diff computed), increments the counter \<^verbatim>\<open>update\<close> and appends the resource
  to the list \<^verbatim>\<open>update\<close>.
\<close>

theorem no_op_first_with_update:
  assumes "ec_actions change = Some (''no-op'' # rest)" and "''update'' \<in> set rest"
  shows "\<exists>cd' sm' r.
           classify_change so change (cd, sm) = Inr (cd', sm') \<and>
           change_details so change (''no-op'' # rest) = Inr r \<and>
           res_before r = JDict [] \<and> res_after r = JDict [] \<and> res_differences r = EmptyDict \<and>
           sum_update sm' = sum_update sm + 1 \<and>
           cd_update cd' = cd_update cd @ [r]"
  using assms
  by (simp add: classify_change_def py_get_default_def if_create_def if_update_def
      if_delete_def if_replace_def if_no_op_def bind_result_def Let_def
      change_details_no_op_first)

theorem no_op_first_with_update_witness:
  "ec_actions (example_change [''no-op'', ''update'']) = Some (''no-op'' # [''update'']) \<and>
   ''update'' \<in> set [''update''] \<and>
   (\<exists>cd' sm' r.
      classify_change dict_order (example_change [''no-op'', ''update''])
        (initial_changes_dict, initial_summary) = Inr (cd', sm') \<and>
      change_details dict_order (example_change [''no-op'', ''update''])
        (''no-op'' # [''update'']) = Inr r \<and>
      res_before r = JDict [] \<and> res_after r = JDict [] \<and> res_differences r = EmptyDict \<and>
      sum_update sm' = sum_update initial_summary + 1 \<and>
      cd_update cd' = cd_update initial_changes_dict @ [r])"
proof -
  have h1: "ec_actions (example_change [''no-op'', ''update'']) = Some (''no-op'' # [''update''])"
    by (simp add: example_change_def)
  have h2: "''update'' \<in> set [''update'']" by simp
  from no_op_first_with_update[OF h1 h2, of dict_order initial_changes_dict initial_summary] h1 h2
  show ?thesis by blast
qed

text \<open>
  Claim C7. An entry whose actions contain both \<^verbatim>\<open>create\<close> and \<^verbatim>\<open>delete\<close>: the loop body
  appends its resource to the list \<^verbatim>\<open>create_and_delete\<close>, increments the counters \<^verbatim>\<open>create\<close>
  and \<^verbatim>\<open>delete\<close>, and leaves the lists \<^verbatim>\<open>create\<close> and \<^verbatim>\<open>delete\<close> as they were.
\<close>

theorem create_and_delete_bucket:
  assumes "ec_actions change = Some action"
    and "''create'' \<in> set action" and "''delete'' \<in> set action"
  shows "\<exists>cd' sm' r.
           classify_change so change (cd, sm) = Inr (cd', sm') \<and>
           change_details so change action = Inr r \<and>
           cd_create_and_delete cd' = cd_create_and_delete cd @ [r] \<and>
           sum_create sm' = sum_create sm + 1 \<and>
           sum_delete sm' = sum_delete sm + 1 \<and>
           cd_create cd' = cd_create cd \<and>
           cd_delete cd' = cd_delete cd"
proof -
  from change_details_member[OF assms(2)]
  obtain r where r: "change_details so change action = Inr r" by blast
  show ?thesis using assms
    by (simp add: classify_change_def py_get_default_def if_create_def if_update_def
        if_delete_def if_replace_def if_no_op_def bind_result_def Let_def r)
qed

theorem create_and_delete_bucket_witness:
  "ec_actions (example_change [''create'', ''delete'']) = Some [''create'', ''delete''] \<and>
   ''create'' \<in> set [''create'', ''delete''] \<and> ''delete'' \<in> set [''create'', ''delete''] \<and>
   (\<exists>cd' sm' r.
      classify_change dict_order (example_change [''create'', ''delete''])
        (initial_changes_dict, initial_summary) = Inr (cd', sm') \<and>
      change_details dict_order (example_change [''create'', ''delete''])
        [''create'', ''delete''] = Inr r \<and>
      cd_create_and_delete cd' = cd_create_and_delete initial_changes_dict @ [r] \<and>
      sum_create sm' = sum_create initial_summary + 1 \<and>
      sum_delete sm' = sum_delete initial_summary + 1 \<and>
      cd_create cd' = cd_create initial_changes_dict \<and>
      cd_delete cd' = cd_delete initial_changes_dict)"
proof -
  have h1: "ec_actions (example_change [''create'', ''delete'']) = Some [''create'', ''delete'']"
    by (simp add: example_change_def)
  have h2: "''create'' \<in> set [''create'', ''delete'']" by simp
  have h3: "''delete'' \<in> set [''create'', ''delete'']" by simp
  from create_and_delete_bucket[OF h1 h2 h3, of dict_order initial_changes_dict initial_summary]
    h1 h2 h3
  show ?thesis by blast
qed

text \<open>
  Claim C10. For a section of the plan that holds at least one entry, \<^verbatim>\<open>analyse_plan\<close>
  returns the pair of lists and counters, and in it: the counters \<^verbatim>\<open>update\<close>, \<^verbatim>\<open>replace\<close>
  and \<^verbatim>\<open>no_op\<close> are the lengths of the lists of the same name, the counter \<^verbatim>\<open>create\<close> is
  the length of \<^verbatim>\<open>create\<close> plus the length of \<^verbatim>\<open>create_and_delete\<close>, and the counter
  \<^verbatim>\<open>delete\<close> is the length of \<^verbatim>\<open>delete\<close> plus the length of \<^verbatim>\<open>create_and_delete\<close>.
\<close>

theorem counters_and_bucket_lengths:
  assumes "map_of plan type_of_change = Some changes" and "changes \<noteq> []"
  shows "\<exists>cd sm. analyse_plan so plan type_of_change = Inr (Some (cd, sm)) \<and>
           sum_update sm = int (length (cd_update cd)) \<and>
           sum_replace sm = int (length (cd_replace cd)) \<and>
           sum_no_op sm = int (length (cd_no_op cd)) \<and>
           sum_create sm = int (length (cd_create cd)) + int (length (cd_create_and_delete cd)) \<and>
           sum_delete sm = int (length (cd_delete cd)) + int (length (cd_create_and_delete cd))"
proof -
  have "counters_match (initial_changes_dict, initial_summary)"
    by (simp add: counters_match_def initial_changes_dict_def initial_summary_def)
  from for_each_classify_counters[OF this, of so changes]
  obtain cd sm where "for_each (classify_change so) changes (initial_changes_dict, initial_summary) = Inr (cd, sm)"
    "counters_match (cd, sm)" by auto
  then show ?thesis using assms
    by (auto simp: analyse_plan_def py_get_default_def bind_result_def counters_match_def)
qed

theorem counters_and_bucket_lengths_witness:
  "map_of example_plan ''resource_changes'' =
     Some [example_change [''create'', ''delete''], example_change [''no-op'', ''update''],
           example_change [''no-op'']] \<and>
   [example_change [''create'', ''delete''], example_change [''no-op'', ''update''],
    example_change [''no-op'']] \<noteq> [] \<and>
   (\<exists>cd sm. analyse_plan dict_order example_plan ''resource_changes'' = Inr (Some (cd, sm)) \<and>
      sum_update sm = int (length (cd_update cd)) \<and>
      sum_replace sm = int (length (cd_replace cd)) \<and>
      sum_no_op sm = int (length (cd_no_op cd)) \<and>
      sum_create sm = int (length (cd_create cd)) + int (length (cd_create_and_delete cd)) \<and>
      sum_delete sm = int (length (cd_delete cd)) + int (length (cd_create_and_delete cd)))"
proof -
  have h1: "map_of example_plan ''resource_changes'' =
     Some [example_change [''create'', ''delete''], example_change [''no-op'', ''update''],
           example_change [''no-op'']]"
    by (simp add: example_plan_def)
  have h2: "[example_change [''create'', ''delete''], example_change [''no-op'', ''update''],
    example_change [''no-op'']] \<noteq> []" by simp
  from counters_and_bucket_lengths[OF h1 h2, of dict_order] h1 h2
  show ?thesis by blast
qed

end
